theory Spec2Isabelle
  imports Main "HOL-Library.AList" "HOL-Library.Char_ord" "HOL-Library.List_Lexorder"
begin

section \<open>Python containers\<close>

text \<open>
  A Python \<open>dict\<close> keeps its keys in insertion order, and \<open>max(d, key=d.get)\<close> walks
  them in that order, so a dictionary is an association list: \<open>map_of\<close> reads a key,
  \<open>AList.update\<close> overwrites the value of a key that is present (its position stays) and
  appends a new key at the end. \<open>dict_add\<close> is \<open>d[k] += n\<close> on a \<open>defaultdict(int)\<close>.
\<close>

type_synonym ('k, 'v) dict = "('k \<times> 'v) list"

definition dict_add :: "('k, int) dict \<Rightarrow> 'k \<Rightarrow> int \<Rightarrow> ('k, int) dict" where
  "dict_add d k n = AList.update k ((case map_of d k of None \<Rightarrow> 0 | Some c \<Rightarrow> c) + n) d"

text \<open>\<open>enumerate(xs)\<close>, counting from \<open>i\<close>.\<close>

fun py_enumerate :: "int \<Rightarrow> 'a list \<Rightarrow> (int \<times> 'a) list" where
  "py_enumerate i [] = []"
| "py_enumerate i (x # xs) = (i, x) # py_enumerate (i + 1) xs"

text \<open>
  \<open>max(d, key=d.get)\<close>: the first key, in insertion order, whose value is not exceeded;
  a later key replaces the current best only when its value is strictly greater.
  Python raises on an empty dictionary; the caller tests for that case before.
\<close>

definition dict_val :: "('k, int) dict \<Rightarrow> 'k \<Rightarrow> int" where
  "dict_val d k = (case map_of d k of None \<Rightarrow> 0 | Some c \<Rightarrow> c)"

fun max_key :: "('k, int) dict \<Rightarrow> 'k option" where
  "max_key [] = None"
| "max_key (p # ps) =
     Some (fold (\<lambda>k best. if dict_val (p # ps) k > dict_val (p # ps) best then k else best)
             (map fst ps) (fst p))"

section \<open>The merge engine shared by \<open>BPE_Tokenizer\<close> and \<open>ByteBPE_Tokenizer\<close>\<close>

text \<open>
  A symbol is a Python \<open>str\<close> (character variant) or \<open>bytes\<close> (byte variant): a list of
  atoms, concatenated by \<open>+\<close>. The functions of this section are the same text in
  \<open>tokenizer_BPE.py\<close> and \<open>Byte_level_BPE.py\<close>.
\<close>

text \<open>
  The inner \<open>while i < len(word)\<close> loop of \<open>_merge_vocab\<close>, \<open>_encode_word\<close> and
  \<open>_encode_bytes\<close>: scan left to right, replace a match by the concatenation and skip
  both symbols, otherwise copy one symbol.
\<close>

fun merge_symbols :: "'a list \<Rightarrow> 'a list \<Rightarrow> 'a list list \<Rightarrow> 'a list list" where
  "merge_symbols first second (x # y # rest) =
     (if x = first \<and> y = second then (x @ y) # merge_symbols first second rest
      else x # merge_symbols first second (y # rest))"
| "merge_symbols first second xs = xs"

text \<open>\<open>_get_pair_stats\<close>: the pairs \<open>(word[i], word[i+1])\<close> for \<open>i\<close> in \<open>range(len(word)-1)\<close>.\<close>

definition adjacent_pairs :: "'s list \<Rightarrow> ('s \<times> 's) list" where
  "adjacent_pairs word = zip word (tl word)"

definition get_pair_stats :: "('s list, int) dict \<Rightarrow> ('s \<times> 's, int) dict" where
  "get_pair_stats bpe_vocab =
     fold (\<lambda>(word, freq) pair_counts.
             if length word < 2 then pair_counts
             else fold (\<lambda>pair pc. dict_add pc pair freq) (adjacent_pairs word) pair_counts)
          bpe_vocab []"

text \<open>\<open>_merge_vocab\<close>.\<close>

definition merge_vocab ::
  "'a list \<times> 'a list \<Rightarrow> ('a list list, int) dict \<Rightarrow> ('a list list, int) dict" where
  "merge_vocab pair bpe_vocab =
     fold (\<lambda>(word, freq) new_bpe_vocab.
             dict_add new_bpe_vocab (merge_symbols (fst pair) (snd pair) word) freq)
          bpe_vocab []"

text \<open>
  The training loop \<open>for _ in range(self.num_merges)\<close>, on the pair
  \<open>(self._bpe_vocab, self.merges)\<close>; the two \<open>break\<close>s return the state as it is.
\<close>

fun train_loop ::
  "nat \<Rightarrow> ('a list list, int) dict \<times> ('a list \<times> 'a list) list \<Rightarrow>
   ('a list list, int) dict \<times> ('a list \<times> 'a list) list" where
  "train_loop 0 (bpe_vocab, merges) = (bpe_vocab, merges)"
| "train_loop (Suc n) (bpe_vocab, merges) =
     (let pair_counts = get_pair_stats bpe_vocab in
      case max_key pair_counts of
        None \<Rightarrow> (bpe_vocab, merges)
      | Some best_pair \<Rightarrow>
          if dict_val pair_counts best_pair < 2 then (bpe_vocab, merges)
          else train_loop n (merge_vocab best_pair bpe_vocab, merges @ [best_pair]))"

text \<open>\<open>{pair: rank for rank, pair in enumerate(self.merges)}\<close>.\<close>

definition build_pair2rank :: "'p list \<Rightarrow> ('p, int) dict" where
  "build_pair2rank merges =
     fold (\<lambda>(rank, pair) d. AList.update pair rank d) (py_enumerate 0 merges) []"

subsection \<open>Segmentation\<close>

text \<open>
  The candidate scan of \<open>_encode_word\<close> / \<open>_encode_bytes\<close>: the triples
  \<open>(rank, i, pair)\<close> for the positions \<open>i\<close> whose pair is a key of \<open>pair2rank\<close>.
\<close>

fun candidates_from ::
  "nat \<Rightarrow> ('s \<times> 's, int) dict \<Rightarrow> 's list \<Rightarrow> (int \<times> nat \<times> ('s \<times> 's)) list" where
  "candidates_from i pair2rank (x # y # rest) =
     (case map_of pair2rank (x, y) of
        None \<Rightarrow> []
      | Some rank \<Rightarrow> [(rank, i, (x, y))]) @ candidates_from (Suc i) pair2rank (y # rest)"
| "candidates_from i pair2rank xs = []"

text \<open>
  \<open>min(candidate)\<close> compares the tuples lexicographically. The positions are pairwise
  different, so the comparison is decided by rank and position and never reaches the
  pair. \<open>None\<close> is the empty list, where the source leaves the loop before \<open>min\<close>.
\<close>

fun cand_less :: "int \<times> nat \<times> 'p \<Rightarrow> int \<times> nat \<times> 'p \<Rightarrow> bool" where
  "cand_less (r, i, p) (r', i', p') = (r < r' \<or> (r = r' \<and> i < i'))"

fun min_candidate :: "(int \<times> nat \<times> 'p) list \<Rightarrow> (int \<times> nat \<times> 'p) option" where
  "min_candidate [] = None"
| "min_candidate (c # cs) = Some (fold (\<lambda>x best. if cand_less x best then x else best) cs c)"

lemma fold_min_in: "fold (\<lambda>x best. if cand_less x best then x else best) cs c \<in> set (c # cs)"
  by (induction cs arbitrary: c) auto

lemma min_candidate_in:
  assumes "min_candidate cs = Some c"
  shows "c \<in> set cs"
proof (cases cs)
  case Nil
  with assms show ?thesis by simp
next
  case (Cons a list)
  with assms fold_min_in [of list a] show ?thesis by simp
qed

lemma candidates_from_pair:
  "(r, i, p) \<in> set (candidates_from k tbl xs) \<Longrightarrow>
     k \<le> i \<and> i - k + 1 < length xs \<and> p = (xs ! (i - k), xs ! (i - k + 1)) \<and> map_of tbl p = Some r"
proof (induction k tbl xs rule: candidates_from.induct)
  case (1 k tbl x y rest)
  from "1.prems" consider
    (here) "map_of tbl (x, y) = Some r" "i = k" "p = (x, y)"
    | (later) "(r, i, p) \<in> set (candidates_from (Suc k) tbl (y # rest))"
    by (auto split: option.splits)
  then show ?case
  proof cases
    case here
    then show ?thesis by simp
  next
    case later
    from "1.IH" [OF later] have a: "Suc k \<le> i" "i - Suc k + 1 < length (y # rest)"
      "p = ((y # rest) ! (i - Suc k), (y # rest) ! (i - Suc k + 1))" "map_of tbl p = Some r"
      by auto
    from a(1) have e: "i - k = Suc (i - Suc k)" by simp
    show ?thesis using a by (simp add: e)
  qed
qed simp_all

lemma merge_symbols_length_le: "length (merge_symbols a b xs) \<le> length xs"
  by (induction a b xs rule: merge_symbols.induct) auto

lemma merge_symbols_shorter:
  "(a, b) \<in> set (adjacent_pairs xs) \<Longrightarrow> length (merge_symbols a b xs) < length xs"
proof (induction a b xs rule: merge_symbols.induct)
  case (1 first second x y rest)
  show ?case
  proof (cases "x = first \<and> y = second")
    case True
    then show ?thesis
      using merge_symbols_length_le [of first second rest] by simp
  next
    case False
    with "1.prems" have "(first, second) \<in> set (adjacent_pairs (y # rest))"
      by (auto simp: adjacent_pairs_def)
    from "1.IH"(2) [OF False this] False show ?thesis by auto
  qed
qed (simp_all add: adjacent_pairs_def)

lemma candidate_is_adjacent:
  assumes "(r, i, p) \<in> set (candidates_from 0 tbl xs)"
  shows "p \<in> set (adjacent_pairs xs)"
proof -
  from candidates_from_pair [OF assms]
  have i: "i + 1 < length xs" and p: "p = (xs ! i, xs ! (i + 1))" by auto
  have "i < length (zip xs (tl xs))" using i by simp
  moreover have "zip xs (tl xs) ! i = p" using i p by (simp add: nth_tl)
  ultimately show ?thesis unfolding adjacent_pairs_def by (metis nth_mem)
qed

text \<open>
  The \<open>while True\<close> loop of \<open>_encode_word\<close> / \<open>_encode_bytes\<close>. Every pass shortens the
  sequence, so the loop ends.
\<close>

function bpe_loop :: "('a list \<times> 'a list, int) dict \<Rightarrow> 'a list list \<Rightarrow> 'a list list" where
  "bpe_loop pair2rank symbols =
     (case min_candidate (candidates_from 0 pair2rank symbols) of
        None \<Rightarrow> symbols
      | Some (rank, i, best_pair) \<Rightarrow>
          bpe_loop pair2rank (merge_symbols (fst best_pair) (snd best_pair) symbols))"
  by pat_completeness auto
termination
proof (relation "measure (\<lambda>(pair2rank, symbols). length symbols)")
  show "wf (measure (\<lambda>(pair2rank, symbols). length symbols))" by simp
next
  fix pair2rank :: "('a list \<times> 'a list, int) dict" and symbols :: "'a list list"
    and c rank rest i best_pair
  assume m: "min_candidate (candidates_from 0 pair2rank symbols) = Some c"
    and c: "(rank, rest) = c" and r: "(i, best_pair) = rest"
  from min_candidate_in [OF m] c r
  have "(rank, i, best_pair) \<in> set (candidates_from 0 pair2rank symbols)" by auto
  from candidate_is_adjacent [OF this]
  have "(fst best_pair, snd best_pair) \<in> set (adjacent_pairs symbols)" by simp
  from merge_symbols_shorter [OF this]
  show "((pair2rank, merge_symbols (fst best_pair) (snd best_pair) symbols), (pair2rank, symbols))
          \<in> measure (\<lambda>(pair2rank, symbols). length symbols)"
    by simp
qed

declare bpe_loop.simps [simp del]

text \<open>
  What \<open>_encode_word\<close> / \<open>_encode_bytes\<close> do with the initial symbol list:
  \<open>if not self.pair2rank: return symbols\<close>, otherwise the loop.
\<close>

definition segment :: "('a list \<times> 'a list, int) dict \<Rightarrow> 'a list list \<Rightarrow> 'a list list" where
  "segment pair2rank symbols = (if pair2rank = [] then symbols else bpe_loop pair2rank symbols)"

subsection \<open>The reference segmenter of the specification\<close>

text \<open>
  Written from the specification (section 4.3), not from the source: an empty table
  returns the input; otherwise take the candidate of lowest rank, leftmost among equal
  ranks, replace exactly that one occurrence by the merged symbol, and scan again.
\<close>


definition spec_replace_at :: "nat \<Rightarrow> 'a list list \<Rightarrow> 'a list list" where
  "spec_replace_at i xs = take i xs @ [xs ! i @ xs ! Suc i] @ drop (i + 2) xs"

lemma spec_replace_at_shorter:
  "Suc i < length xs \<Longrightarrow> length (spec_replace_at i xs) < length xs"
  by (simp add: spec_replace_at_def)

function spec_segment :: "('a list \<times> 'a list, int) dict \<Rightarrow> 'a list list \<Rightarrow> 'a list list" where
  "spec_segment tbl xs =
     (if tbl = [] then xs
      else case min_candidate (candidates_from 0 tbl xs) of
        None \<Rightarrow> xs
      | Some (rank, i, pair) \<Rightarrow> spec_segment tbl (spec_replace_at i xs))"
  by pat_completeness auto
termination
proof (relation "measure (\<lambda>(tbl, xs). length xs)")
  show "wf (measure (\<lambda>(tbl, xs). length xs))" by simp
next
  fix tbl :: "('a list \<times> 'a list, int) dict" and xs :: "'a list list" and c rank rest i pair
  assume m: "min_candidate (candidates_from 0 tbl xs) = Some c"
    and c: "(rank, rest) = c" and r: "(i, pair) = rest"
  from min_candidate_in [OF m] c r
  have "(rank, i, pair) \<in> set (candidates_from 0 tbl xs)" by auto
  from candidates_from_pair [OF this] have "Suc i < length xs" by simp
  from spec_replace_at_shorter [OF this]
  show "((tbl, spec_replace_at i xs), (tbl, xs)) \<in> measure (\<lambda>(tbl, xs). length xs)" by simp
qed

declare spec_segment.simps [simp del]

text \<open>
  Two properties of a merge-rank table, over its keys: different pairs have different
  ranks, and a pair with the merged symbol \<open>u + v\<close> as a component has a larger rank than
  the pair \<open>(u, v)\<close>. A list of merges that records every pair once, the merged symbol
  appearing only after its merge, numbers its pairs in this way.
\<close>

definition distinct_ranks :: "('p, int) dict \<Rightarrow> bool" where
  "distinct_ranks tbl =
     (\<forall>p \<in> set (map fst tbl). \<forall>q \<in> set (map fst tbl). map_of tbl p = map_of tbl q \<longrightarrow> p = q)"

definition merged_ranked_later :: "('a list \<times> 'a list, int) dict \<Rightarrow> bool" where
  "merged_ranked_later tbl =
     (\<forall>p \<in> set (map fst tbl). \<forall>q \<in> set (map fst tbl).
        fst q = fst p @ snd p \<or> snd q = fst p @ snd p \<longrightarrow> dict_val tbl p < dict_val tbl q)"

section \<open>Text\<close>

text \<open>
  A Python \<open>str\<close> is a sequence of Unicode code points, \<open>bytes\<close> a sequence of bytes
  (\<open>char\<close> is the 8-bit type). \<open>ustr\<close> writes an ASCII literal as a \<open>str\<close>.
\<close>

type_synonym ustr = "nat list"

definition ustr :: "string \<Rightarrow> ustr" where
  "ustr s = map of_char s"

datatype py_error = ValueError | KeyError | UnicodeEncodeError | TypeError

text \<open>
  The whitespace of \<open>str.strip()\<close>, \<open>str.split()\<close> and the pattern \<open>\s\<close> on a \<open>str\<close>
  (CPython's \<open>Py_UNICODE_ISSPACE\<close>).
\<close>

definition is_space :: "nat \<Rightarrow> bool" where
  "is_space c =
     ((9 \<le> c \<and> c \<le> 13) \<or> (28 \<le> c \<and> c \<le> 32) \<or> c = 133 \<or> c = 160 \<or> c = 5760 \<or>
      (8192 \<le> c \<and> c \<le> 8202) \<or> c = 8232 \<or> c = 8233 \<or> c = 8239 \<or> c = 8287 \<or> c = 12288)"

text \<open>\<open>text.strip()\<close>.\<close>

definition py_strip :: "ustr \<Rightarrow> ustr" where
  "py_strip s = rev (dropWhile is_space (rev (dropWhile is_space s)))"

text \<open>\<open>re.sub(r"\s+", " ", text)\<close>: every maximal run of whitespace becomes one space.\<close>

function collapse_ws :: "ustr \<Rightarrow> ustr" where
  "collapse_ws [] = []"
| "collapse_ws (c # cs) =
     (if is_space c then 32 # collapse_ws (dropWhile is_space cs) else c # collapse_ws cs)"
  by pat_completeness auto
termination
  by (relation "measure length") (auto simp: length_dropWhile_le less_Suc_eq_le)

text \<open>\<open>text.split()\<close>: the maximal runs of characters that are not whitespace.\<close>

function py_split :: "ustr \<Rightarrow> ustr list" where
  "py_split [] = []"
| "py_split (c # cs) =
     (if is_space c then py_split cs
      else (c # takeWhile (\<lambda>x. \<not> is_space x) cs) # py_split (dropWhile (\<lambda>x. \<not> is_space x) cs))"
  by pat_completeness auto
termination
  by (relation "measure length") (auto simp: length_dropWhile_le less_Suc_eq_le)

text \<open>\<open>" ".join(words)\<close>.\<close>

fun join_space :: "ustr list \<Rightarrow> ustr" where
  "join_space [] = []"
| "join_space [w] = w"
| "join_space (w # ws) = w @ 32 # join_space ws"

text \<open>\<open>tok.endswith(suffix)\<close>.\<close>

definition endswith :: "'a list \<Rightarrow> 'a list \<Rightarrow> bool" where
  "endswith tok suffix =
     (length suffix \<le> length tok \<and> drop (length tok - length suffix) tok = suffix)"

text \<open>
  \<open>unicodedata.normalize("NFKC", text)\<close> and \<open>str.lower()\<close> are functions of the Unicode
  character database, which is not part of the repository: they are parameters of the
  model.
\<close>

record unicode_lib =
  nfkc :: "ustr \<Rightarrow> ustr"
  str_lower :: "ustr \<Rightarrow> ustr"

text \<open>\<open>normalize\<close> (the same in both classes).\<close>

definition normalize :: "unicode_lib \<Rightarrow> ustr \<Rightarrow> ustr" where
  "normalize U text = collapse_ws (py_strip (str_lower U (nfkc U text)))"

text \<open>
  The database restricted to ASCII text, for the concrete runs below: NFKC leaves ASCII
  text as it is, and \<open>lower\<close> maps \<open>A\<close>..\<open>Z\<close> to \<open>a\<close>..\<open>z\<close>.
\<close>

definition ascii_lib :: unicode_lib where
  "ascii_lib =
     \<lparr>nfkc = (\<lambda>t. t),
      str_lower = map (\<lambda>c. if 65 \<le> c \<and> c \<le> 90 then c + 32 else c)\<rparr>"

subsection \<open>UTF-8\<close>

text \<open>
  \<open>str.encode("utf-8")\<close>: one to four bytes for a code point; a surrogate
  (\<open>D800\<close>..\<open>DFFF\<close>) raises \<open>UnicodeEncodeError\<close>. A number above \<open>10FFFF\<close> is not a
  character of a \<open>str\<close>; the model answers with the same error.
\<close>

definition utf8_encode_char :: "nat \<Rightarrow> py_error + nat list" where
  "utf8_encode_char c =
     (if c < 128 then Inr [c]
      else if c < 2048 then Inr [192 + c div 64, 128 + c mod 64]
      else if 55296 \<le> c \<and> c \<le> 57343 then Inl UnicodeEncodeError
      else if c < 65536 then Inr [224 + c div 4096, 128 + (c div 64) mod 64, 128 + c mod 64]
      else if c < 1114112 then
        Inr [240 + c div 262144, 128 + (c div 4096) mod 64, 128 + (c div 64) mod 64, 128 + c mod 64]
      else Inl UnicodeEncodeError)"

fun utf8_encode_nat :: "ustr \<Rightarrow> py_error + nat list" where
  "utf8_encode_nat [] = Inr []"
| "utf8_encode_nat (c # cs) =
     (case utf8_encode_char c of
        Inl e \<Rightarrow> Inl e
      | Inr bs \<Rightarrow> (case utf8_encode_nat cs of Inl e \<Rightarrow> Inl e | Inr rest \<Rightarrow> Inr (bs @ rest)))"

definition utf8_encode :: "ustr \<Rightarrow> py_error + string" where
  "utf8_encode s = (case utf8_encode_nat s of Inl e \<Rightarrow> Inl e | Inr bs \<Rightarrow> Inr (map char_of bs))"

text \<open>
  \<open>bytes.decode("utf-8", errors="replace")\<close>, as CPython decodes: a well-formed sequence
  gives its code point; an ill-formed one gives one \<open>U+FFFD\<close> for its longest prefix
  that could start a well-formed sequence (at least one byte), and decoding goes on after
  that prefix. It never raises.
\<close>

definition is_cont :: "nat \<Rightarrow> bool" where
  "is_cont b = (128 \<le> b \<and> b \<le> 191)"

definition second_ok :: "nat \<Rightarrow> nat \<Rightarrow> bool" where
  "second_ok b0 b1 =
     (is_cont b1 \<and> \<not> (b0 = 224 \<and> b1 < 160) \<and> \<not> (b0 = 237 \<and> 160 \<le> b1) \<and>
      \<not> (b0 = 240 \<and> b1 < 144) \<and> \<not> (b0 = 244 \<and> 144 \<le> b1))"

fun utf8_decode_nat :: "nat list \<Rightarrow> ustr" where
  "utf8_decode_nat [] = []"
| "utf8_decode_nat (b0 # rest) =
     (if b0 < 128 then b0 # utf8_decode_nat rest
      else if b0 < 194 then 65533 # utf8_decode_nat rest
      else if b0 < 224 then
        (case rest of
           [] \<Rightarrow> [65533]
         | b1 # r1 \<Rightarrow>
             if is_cont b1 then ((b0 - 192) * 64 + (b1 - 128)) # utf8_decode_nat r1
             else 65533 # utf8_decode_nat rest)
      else if b0 < 240 then
        (case rest of
           [] \<Rightarrow> [65533]
         | b1 # r1 \<Rightarrow>
             if \<not> second_ok b0 b1 then 65533 # utf8_decode_nat rest
             else (case r1 of
                     [] \<Rightarrow> [65533]
                   | b2 # r2 \<Rightarrow>
                       if is_cont b2 then
                         ((b0 - 224) * 4096 + (b1 - 128) * 64 + (b2 - 128)) # utf8_decode_nat r2
                       else 65533 # utf8_decode_nat r1))
      else if b0 < 245 then
        (case rest of
           [] \<Rightarrow> [65533]
         | b1 # r1 \<Rightarrow>
             if \<not> second_ok b0 b1 then 65533 # utf8_decode_nat rest
             else (case r1 of
                     [] \<Rightarrow> [65533]
                   | b2 # r2 \<Rightarrow>
                       if \<not> is_cont b2 then 65533 # utf8_decode_nat r1
                       else (case r2 of
                               [] \<Rightarrow> [65533]
                             | b3 # r3 \<Rightarrow>
                                 if is_cont b3 then
                                   ((b0 - 240) * 262144 + (b1 - 128) * 4096 +
                                    (b2 - 128) * 64 + (b3 - 128)) # utf8_decode_nat r3
                                 else 65533 # utf8_decode_nat r2)))
      else 65533 # utf8_decode_nat rest)"

definition utf8_decode_replace :: "string \<Rightarrow> ustr" where
  "utf8_decode_replace bs = utf8_decode_nat (map of_char bs)"

section \<open>The tokenizer state and training\<close>

text \<open>
  The fields of \<open>__init__\<close> (the same in both classes). \<open>'s\<close> is the type of symbols,
  \<open>'t\<close> the type of the tokens that are the keys of \<open>token_to_id\<close>.
\<close>

record ('s, 't) tokenizer =
  num_merges :: int
  token_to_id :: "('t, int) dict"
  id_to_token :: "(int, 't) dict"
  bpe_vocab :: "('s list, int) dict"
  merges :: "('s \<times> 's) list"
  pair2rank :: "('s \<times> 's, int) dict"

definition init :: "int \<Rightarrow> ('s, 't) tokenizer" where
  "init n = \<lparr>num_merges = n, token_to_id = [], id_to_token = [], bpe_vocab = [],
             merges = [], pair2rank = []\<rparr>"

definition SPECIAL_TOKENS :: "ustr list" where
  "SPECIAL_TOKENS = [ustr ''<pad>'', ustr ''<unk>'', ustr ''<bos>'', ustr ''<eos>'']"

text \<open>\<open>sorted(symbol_set)\<close>, the set of the symbols of the keys of \<open>_bpe_vocab\<close>.\<close>

definition sorted_symbols :: "('s::linorder list, int) dict \<Rightarrow> 's list" where
  "sorted_symbols vocab = sorted_list_of_set (set (concat (map fst vocab)))"

text \<open>The loop \<open>for idx, token in enumerate(vocab_list)\<close> that fills both maps.\<close>

definition build_maps :: "'t list \<Rightarrow> ('t, int) dict \<times> (int, 't) dict" where
  "build_maps vocab_list =
     fold (\<lambda>(idx, token) (t2i, i2t). (AList.update token idx t2i, AList.update idx token i2t))
          (py_enumerate 0 vocab_list) ([], [])"

text \<open>
  \<open>train\<close> after its first line, the same in both classes: \<open>vocab0\<close> is the result of
  \<open>_get_bpe_vocab_from_corpus\<close>, \<open>specials\<close> is \<open>list(self.SPECIAL_TOKENS)\<close> and
  \<open>tok\<close> makes a symbol a key of the token maps. \<open>self.merges\<close> is appended to, never
  reset; the other fields are assigned.
\<close>

definition train_from ::
  "'t list \<Rightarrow> ('a::linorder list \<Rightarrow> 't) \<Rightarrow> ('a list, 't) tokenizer \<Rightarrow>
   ('a list list, int) dict \<Rightarrow> ('a list, 't) tokenizer" where
  "train_from specials tok self vocab0 =
     (let (vocab', merges') = train_loop (nat (num_merges self)) (vocab0, merges self);
          vocab_list = specials @ map tok (sorted_symbols vocab');
          (t2i, i2t) = build_maps vocab_list
      in self\<lparr>bpe_vocab := vocab', merges := merges', pair2rank := build_pair2rank merges',
              token_to_id := t2i, id_to_token := i2t\<rparr>)"

text \<open>The list \<open>vocab_list\<close> that \<open>train\<close> enumerates.\<close>

definition vocab_list_of :: "'t list \<Rightarrow> ('s::linorder \<Rightarrow> 't) \<Rightarrow> ('s list, int) dict \<Rightarrow> 't list" where
  "vocab_list_of specials tok vocab = specials @ map tok (sorted_symbols vocab)"

section \<open>\<open>BPE_Tokenizer\<close> (\<open>tokenizer_BPE.py\<close>)\<close>

definition eow :: ustr where
  "eow = ustr ''</w>''"

text \<open>\<open>list(word) + ["</w>"]\<close>.\<close>

definition word_symbols :: "ustr \<Rightarrow> ustr list" where
  "word_symbols word = map (\<lambda>c. [c]) word @ [eow]"

definition get_bpe_vocab_from_corpus :: "unicode_lib \<Rightarrow> ustr list \<Rightarrow> (ustr list, int) dict" where
  "get_bpe_vocab_from_corpus U corpus =
     fold (\<lambda>line v.
             fold (\<lambda>word v. if word = [] then v else dict_add v (word_symbols word) 1)
                  (py_split (normalize U line)) v)
          corpus []"

definition train :: "unicode_lib \<Rightarrow> (ustr, ustr) tokenizer \<Rightarrow> ustr list \<Rightarrow> (ustr, ustr) tokenizer" where
  "train U self corpus =
     train_from SPECIAL_TOKENS (\<lambda>s. s) self (get_bpe_vocab_from_corpus U corpus)"

definition encode_word :: "(ustr, ustr) tokenizer \<Rightarrow> ustr \<Rightarrow> ustr list" where
  "encode_word self word = segment (pair2rank self) (word_symbols word)"

text \<open>The last lines of \<open>encode\<close>, the same in both classes.\<close>

definition tokens_to_ids :: "('t, int) dict \<Rightarrow> 't \<Rightarrow> 't list \<Rightarrow> py_error + int list" where
  "tokens_to_ids t2i unk tokens =
     (case map_of t2i unk of
        None \<Rightarrow> Inl KeyError
      | Some unk_id \<Rightarrow>
          Inr (map (\<lambda>tok. case map_of t2i tok of None \<Rightarrow> unk_id | Some idx \<Rightarrow> idx) tokens))"

definition encode :: "unicode_lib \<Rightarrow> (ustr, ustr) tokenizer \<Rightarrow> ustr \<Rightarrow> py_error + int list" where
  "encode U self text =
     (if token_to_id self = [] then Inl ValueError
      else let norm = normalize U text;
               words = filter (\<lambda>w. w \<noteq> []) (py_split norm);
               tokens = concat (map (encode_word self) words)
           in tokens_to_ids (token_to_id self) (ustr ''<unk>'')
                ([ustr ''<bos>''] @ tokens @ [ustr ''<eos>'']))"

text \<open>The first loop of \<open>decode\<close>: \<open>self.id_to_token.get(i, "<unk>")\<close>.\<close>

definition ids_to_tokens :: "(int, 't) dict \<Rightarrow> 't \<Rightarrow> int list \<Rightarrow> 't list" where
  "ids_to_tokens i2t unk ids = map (\<lambda>i. case map_of i2t i of None \<Rightarrow> unk | Some t \<Rightarrow> t) ids"

text \<open>The word loop of \<open>decode\<close>, on the pair \<open>(words, current_word)\<close>.\<close>

definition decode_step :: "ustr \<Rightarrow> ustr list \<times> ustr \<Rightarrow> ustr list \<times> ustr" where
  "decode_step tok st =
     (case st of (words, current_word) \<Rightarrow>
        if endswith tok eow then (words @ [current_word @ take (length tok - 4) tok], [])
        else (words, current_word @ tok))"

definition decode :: "(ustr, ustr) tokenizer \<Rightarrow> int list \<Rightarrow> py_error + ustr" where
  "decode self ids =
     (if id_to_token self = [] then Inl ValueError
      else let tokens = ids_to_tokens (id_to_token self) (ustr ''<unk>'') ids;
               tokens = filter (\<lambda>t. t \<notin> set SPECIAL_TOKENS) tokens;
               (words, current_word) = fold decode_step tokens ([], []);
               words = (if current_word \<noteq> [] then words @ [current_word] else words)
           in Inr (join_space words))"

section \<open>\<open>ByteBPE_Tokenizer\<close> (\<open>Byte_level_BPE.py\<close>)\<close>

text \<open>
  The keys of \<open>token_to_id\<close> are the four special tokens, which are \<open>str\<close>, and the
  symbols, which are \<open>bytes\<close>; a \<open>str\<close> never equals a \<open>bytes\<close>.
\<close>

datatype btoken = TStr ustr | TBytes string

text \<open>\<open>[bytes([byte]) for byte in b]\<close>.\<close>

definition byte_symbols :: "string \<Rightarrow> string list" where
  "byte_symbols b = map (\<lambda>byte. [byte]) b"

fun get_bpe_vocab_from_corpus_b ::
  "unicode_lib \<Rightarrow> ustr list \<Rightarrow> (string list, int) dict \<Rightarrow> py_error + (string list, int) dict" where
  "get_bpe_vocab_from_corpus_b U [] v = Inr v"
| "get_bpe_vocab_from_corpus_b U (line # rest) v =
     (case utf8_encode (normalize U line) of
        Inl e \<Rightarrow> Inl e
      | Inr b \<Rightarrow>
          (let symbols = byte_symbols b in
           if symbols = [] then get_bpe_vocab_from_corpus_b U rest v
           else get_bpe_vocab_from_corpus_b U rest (dict_add v symbols 1)))"

definition train_b ::
  "unicode_lib \<Rightarrow> (string, btoken) tokenizer \<Rightarrow> ustr list \<Rightarrow> py_error + (string, btoken) tokenizer" where
  "train_b U self corpus =
     (case get_bpe_vocab_from_corpus_b U corpus [] of
        Inl e \<Rightarrow> Inl e
      | Inr vocab0 \<Rightarrow> Inr (train_from (map TStr SPECIAL_TOKENS) TBytes self vocab0))"

definition encode_bytes :: "(string, btoken) tokenizer \<Rightarrow> string \<Rightarrow> string list" where
  "encode_bytes self byte_seq = segment (pair2rank self) (byte_symbols byte_seq)"

definition encode_b :: "unicode_lib \<Rightarrow> (string, btoken) tokenizer \<Rightarrow> ustr \<Rightarrow> py_error + int list" where
  "encode_b U self text =
     (if token_to_id self = [] then Inl ValueError
      else case utf8_encode (normalize U text) of
        Inl e \<Rightarrow> Inl e
      | Inr words \<Rightarrow>
          tokens_to_ids (token_to_id self) (TStr (ustr ''<unk>''))
            ([TStr (ustr ''<bos>'')] @ map TBytes (encode_bytes self words) @ [TStr (ustr ''<eos>'')]))"

text \<open>\<open>b"".join(byte_pieces)\<close> raises \<open>TypeError\<close> on a piece that is a \<open>str\<close>.\<close>

fun join_bytes :: "btoken list \<Rightarrow> py_error + string" where
  "join_bytes [] = Inr []"
| "join_bytes (TStr s # ts) = Inl TypeError"
| "join_bytes (TBytes b # ts) =
     (case join_bytes ts of Inl e \<Rightarrow> Inl e | Inr rest \<Rightarrow> Inr (b @ rest))"

definition decode_b :: "(string, btoken) tokenizer \<Rightarrow> int list \<Rightarrow> py_error + ustr" where
  "decode_b self ids =
     (if id_to_token self = [] then Inl ValueError
      else let tokens = ids_to_tokens (id_to_token self) (TStr (ustr ''<unk>'')) ids;
               byte_pieces = filter (\<lambda>t. t \<notin> set (map TStr SPECIAL_TOKENS)) tokens
           in case join_bytes byte_pieces of
                Inl e \<Rightarrow> Inl e
              | Inr byte_stream \<Rightarrow> Inr (utf8_decode_replace byte_stream))"

section \<open>Auxiliary notions for training\<close>

text \<open>
  The state in which the loop of \<open>train\<close> leaves by one of its two \<open>break\<close>s: no pair is
  left, or the best pair occurs less than twice.
\<close>

definition starved :: "('a list list, int) dict \<Rightarrow> bool" where
  "starved vocab =
     (case max_key (get_pair_stats vocab) of
        None \<Rightarrow> True
      | Some best_pair \<Rightarrow> dict_val (get_pair_stats vocab) best_pair < 2)"

text \<open>
  Written from the specification (section 4.2), not from the source: among the pairs of
  maximal frequency, the lexicographically smallest over its two symbol contents.
\<close>

definition pair_lex_less :: "ustr \<times> ustr \<Rightarrow> ustr \<times> ustr \<Rightarrow> bool" where
  "pair_lex_less p q = (fst p < fst q \<or> (fst p = fst q \<and> snd p < snd q))"

fun spec_max_key :: "(ustr \<times> ustr, int) dict \<Rightarrow> (ustr \<times> ustr) option" where
  "spec_max_key [] = None"
| "spec_max_key (p # ps) =
     Some (fold (\<lambda>k best. if dict_val (p # ps) k > dict_val (p # ps) best \<or>
                               (dict_val (p # ps) k = dict_val (p # ps) best \<and> pair_lex_less k best)
                            then k else best)
                (map fst ps) (fst p))"

section \<open>Properties of the segmentation loop\<close>

lemma candidates_from_Nil_iff:
  "candidates_from k tbl xs = [] \<longleftrightarrow> (\<forall>p \<in> set (adjacent_pairs xs). map_of tbl p = None)"
  by (induction k tbl xs rule: candidates_from.induct)
     (auto simp: adjacent_pairs_def split: option.splits)

lemma bpe_loop_stop: "candidates_from 0 tbl xs = [] \<Longrightarrow> bpe_loop tbl xs = xs"
  by (simp add: bpe_loop.simps)

lemma bpe_loop_terminal: "candidates_from 0 tbl (bpe_loop tbl xs) = []"
proof (induction tbl xs rule: bpe_loop.induct)
  case (1 tbl xs)
  show ?case
  proof (cases "min_candidate (candidates_from 0 tbl xs)")
    case None
    then have "candidates_from 0 tbl xs = []" by (cases "candidates_from 0 tbl xs") auto
    then show ?thesis by (simp add: bpe_loop_stop)
  next
    case (Some c)
    obtain r i bp where c: "c = (r, i, bp)" by (cases c) auto
    from "1.IH" [OF Some, of r "(i, bp)" i bp] c Some show ?thesis
      by (simp add: bpe_loop.simps [of tbl xs])
  qed
qed

text \<open>
  C9. Segmentation is a fixed point: for every merge-rank table, segmenting a symbol
  sequence that the segmenter has itself produced under that table returns it unchanged,
  and the sequence it produces has no adjacent pair that is a key of the table.
\<close>

theorem segment_fixed_point:
  "segment tbl (segment tbl xs) = segment tbl xs \<and>
   (\<forall>p \<in> set (adjacent_pairs (segment tbl xs)). map_of tbl p = None)"
proof (cases "tbl = []")
  case True
  then show ?thesis by (simp add: segment_def)
next
  case False
  have t: "candidates_from 0 tbl (bpe_loop tbl xs) = []" by (rule bpe_loop_terminal)
  from t have "bpe_loop tbl (bpe_loop tbl xs) = bpe_loop tbl xs" by (rule bpe_loop_stop)
  moreover from t have "\<forall>p \<in> set (adjacent_pairs (bpe_loop tbl xs)). map_of tbl p = None"
    by (simp add: candidates_from_Nil_iff)
  ultimately show ?thesis using False by (simp add: segment_def)
qed

theorem segment_fixed_point_witness:
  "segment [((''l'', ''o''), 0), ((''lo'', ''w''), 1)] [''l'', ''o'', ''w'', ''l'', ''o'']
     = [''low'', ''lo''] \<and>
   segment [((''l'', ''o''), 0), ((''lo'', ''w''), 1)] [''low'', ''lo''] = [''low'', ''lo''] \<and>
   adjacent_pairs [''low'', ''lo''] = [(''low'', ''lo'')] \<and>
   map_of [((''l'', ''o''), 0::int), ((''lo'', ''w''), 1)] (''low'', ''lo'') = None"
proof -
  have e: "segment [((''l'', ''o''), 0), ((''lo'', ''w''), 1)] [''l'', ''o'', ''w'', ''l'', ''o'']
             = [''low'', ''lo'']"
    by (simp add: segment_def bpe_loop.simps)
  from segment_fixed_point
         [of "[((''l'', ''o''), 0), ((''lo'', ''w''), 1)]" "[''l'', ''o'', ''w'', ''l'', ''o'']"]
  show ?thesis unfolding e by (simp add: adjacent_pairs_def)
qed

lemma cand_less_trans: "cand_less a b \<Longrightarrow> cand_less b c \<Longrightarrow> cand_less a c"
  by (cases a, cases b, cases c) auto

lemma fold_min_least:
  "c' \<in> set (c # cs) \<Longrightarrow> \<not> cand_less c' (fold (\<lambda>x best. if cand_less x best then x else best) cs c)"
proof (induction cs arbitrary: c c')
  case Nil
  then show ?case by (cases c) auto
next
  case (Cons x cs)
  let ?c0 = "if cand_less x c then x else c"
  have ih: "\<And>d. d \<in> set (?c0 # cs) \<Longrightarrow> \<not> cand_less d (fold (\<lambda>x best. if cand_less x best then x else best) cs ?c0)"
    using Cons.IH by blast
  have m: "\<not> cand_less ?c0 (fold (\<lambda>x best. if cand_less x best then x else best) cs ?c0)"
    by (rule ih) simp
  from Cons.prems consider "c' = c" | "c' = x" | "c' \<in> set cs" by auto
  then show ?case
  proof cases
    case 1
    show ?thesis
    proof (cases "cand_less x c")
      case True
      with m have "\<not> cand_less x (fold (\<lambda>x best. if cand_less x best then x else best) cs x)"
        by simp
      with True cand_less_trans [of x c "fold (\<lambda>x best. if cand_less x best then x else best) cs x"]
      show ?thesis unfolding 1 by auto
    next
      case False
      with m show ?thesis unfolding 1 by simp
    qed
  next
    case 2
    show ?thesis
    proof (cases "cand_less x c")
      case True
      with m show ?thesis unfolding 2 by simp
    next
      case False
      have "\<not> cand_less x (fold (\<lambda>x best. if cand_less x best then x else best) cs c)"
      proof
        assume a: "cand_less x (fold (\<lambda>x best. if cand_less x best then x else best) cs c)"
        from m False have b: "\<not> cand_less c (fold (\<lambda>x best. if cand_less x best then x else best) cs c)" by simp
        from a b False show False
          by (cases x; cases c; cases "fold (\<lambda>x best. if cand_less x best then x else best) cs c") auto
      qed
      with False show ?thesis unfolding 2 by simp
    qed
  next
    case 3
    with ih [of c'] show ?thesis by simp
  qed
qed

lemma min_candidate_least:
  assumes "min_candidate cs = Some m" "c \<in> set cs"
  shows "\<not> cand_less c m"
proof (cases cs)
  case Nil
  with assms show ?thesis by simp
next
  case (Cons a list)
  with assms fold_min_least [of c a list] show ?thesis by simp
qed

lemma candidates_from_complete:
  "Suc j < length xs \<Longrightarrow> map_of tbl (xs ! j, xs ! Suc j) = Some r \<Longrightarrow>
     (r, k + j, (xs ! j, xs ! Suc j)) \<in> set (candidates_from k tbl xs)"
proof (induction k tbl xs arbitrary: j rule: candidates_from.induct)
  case (1 k tbl x y rest)
  show ?case
  proof (cases j)
    case 0
    with "1.prems" show ?thesis by simp
  next
    case (Suc j')
    with "1.prems" have "Suc j' < length (y # rest)"
      "map_of tbl ((y # rest) ! j', (y # rest) ! Suc j') = Some r" by auto
    from "1.IH" [OF this] Suc show ?thesis by simp
  qed
qed simp_all

lemma merge_symbols_leftmost:
  "Suc i < length xs \<Longrightarrow> xs ! i = a \<Longrightarrow> xs ! Suc i = b \<Longrightarrow>
   (\<forall>j < i. (xs ! j, xs ! Suc j) \<noteq> (a, b)) \<Longrightarrow>
   merge_symbols a b xs = take i xs @ [a @ b] @ merge_symbols a b (drop (i + 2) xs)"
proof (induction i arbitrary: xs)
  case 0
  then obtain x y rest where "xs = x # y # rest"
    by (cases xs; cases "tl xs") auto
  with 0 show ?case by simp
next
  case (Suc i)
  then obtain x y rest where xs: "xs = x # y # rest"
    by (cases xs; cases "tl xs") auto
  from Suc.prems(4) have "(xs ! 0, xs ! Suc 0) \<noteq> (a, b)" by blast
  with xs have ne: "\<not> (x = a \<and> y = b)" by simp
  have "merge_symbols a b (y # rest) = take i (y # rest) @ [a @ b] @ merge_symbols a b (drop (i + 2) (y # rest))"
  proof (rule Suc.IH)
    show "Suc i < length (y # rest)" using Suc.prems(1) xs by simp
    show "(y # rest) ! i = a" using Suc.prems(2) xs by simp
    show "(y # rest) ! Suc i = b" using Suc.prems(3) xs by simp
    show "\<forall>j<i. ((y # rest) ! j, (y # rest) ! Suc j) \<noteq> (a, b)"
    proof (intro allI impI)
      fix j assume "j < i"
      then have "Suc j < Suc i" by simp
      with Suc.prems(4) have "(xs ! Suc j, xs ! Suc (Suc j)) \<noteq> (a, b)" by blast
      with xs show "((y # rest) ! j, (y # rest) ! Suc j) \<noteq> (a, b)" by simp
    qed
  qed
  moreover from ne have "merge_symbols a b (x # y # rest) = x # merge_symbols a b (y # rest)"
    by auto
  ultimately show ?case using xs by simp
qed

lemma merge_symbols_absent:
  "(a, b) \<notin> set (adjacent_pairs xs) \<Longrightarrow> merge_symbols a b xs = xs"
  by (induction a b xs rule: merge_symbols.induct) (auto simp: adjacent_pairs_def)

lemma min_candidate_leftmost:
  assumes m: "min_candidate (candidates_from 0 tbl xs) = Some (r, i, bp)"
  shows "Suc i < length xs" "bp = (xs ! i, xs ! Suc i)" "map_of tbl bp = Some r"
    "\<forall>j < i. (xs ! j, xs ! Suc j) \<noteq> bp"
proof -
  from candidates_from_pair [OF min_candidate_in [OF m]]
  show a: "Suc i < length xs" and b: "bp = (xs ! i, xs ! Suc i)" and c: "map_of tbl bp = Some r"
    by auto
  show "\<forall>j < i. (xs ! j, xs ! Suc j) \<noteq> bp"
  proof (intro allI impI notI)
    fix j assume j: "j < i" and e: "(xs ! j, xs ! Suc j) = bp"
    from j a have "Suc j < length xs" by simp
    moreover from e c have "map_of tbl (xs ! j, xs ! Suc j) = Some r" by simp
    ultimately have "(r, 0 + j, (xs ! j, xs ! Suc j)) \<in> set (candidates_from 0 tbl xs)"
      by (rule candidates_from_complete)
    from min_candidate_least [OF m this] j show False by simp
  qed
qed


text \<open>
  One iteration of the loop of \<open>_encode_word\<close> / \<open>_encode_bytes\<close> picks the candidate of
  lowest rank, leftmost among equal ranks; it rewrites that occurrence and, in the same
  left-to-right pass, every further non-overlapping occurrence of the same pair to its
  right. So the iteration is the reference single-occurrence rewrite followed by the same
  pair's rewrite of the rest of the sequence.
\<close>

lemma bpe_pass_vs_single_rewrite:
  assumes m: "min_candidate (candidates_from 0 tbl xs) = Some (r, i, bp)"
  shows "segment tbl xs = segment tbl (merge_symbols (fst bp) (snd bp) xs) \<and>
         spec_segment tbl xs = spec_segment tbl (spec_replace_at i xs) \<and>
         (\<forall>c \<in> set (candidates_from 0 tbl xs). \<not> cand_less c (r, i, bp)) \<and>
         merge_symbols (fst bp) (snd bp) xs =
           take (Suc i) (spec_replace_at i xs) @
           merge_symbols (fst bp) (snd bp) (drop (Suc i) (spec_replace_at i xs)) \<and>
         (bp \<notin> set (adjacent_pairs (drop (Suc i) (spec_replace_at i xs))) \<longrightarrow>
            merge_symbols (fst bp) (snd bp) xs = spec_replace_at i xs)"
proof -
  note lm = min_candidate_leftmost [OF m]
  have ne: "tbl \<noteq> []"
  proof
    assume "tbl = []"
    then have "candidates_from 0 tbl xs = []" by (simp add: candidates_from_Nil_iff)
    with m show False by simp
  qed
  have tk: "take (Suc i) (spec_replace_at i xs) = take i xs @ [xs ! i @ xs ! Suc i]"
    using lm(1) by (simp add: spec_replace_at_def)
  have dr: "drop (Suc i) (spec_replace_at i xs) = drop (i + 2) xs"
    using lm(1) by (simp add: spec_replace_at_def)
  have c1: "segment tbl xs = segment tbl (merge_symbols (fst bp) (snd bp) xs)"
    using ne m by (simp add: segment_def bpe_loop.simps [of tbl xs])
  have c2: "spec_segment tbl xs = spec_segment tbl (spec_replace_at i xs)"
    using ne m by (simp add: spec_segment.simps [of tbl xs])
  have c3: "\<forall>c \<in> set (candidates_from 0 tbl xs). \<not> cand_less c (r, i, bp)"
    using min_candidate_least [OF m] by blast
  have c4: "merge_symbols (fst bp) (snd bp) xs =
      take i xs @ [fst bp @ snd bp] @ merge_symbols (fst bp) (snd bp) (drop (i + 2) xs)"
  proof (rule merge_symbols_leftmost)
    show "Suc i < length xs" by (rule lm(1))
    show "xs ! i = fst bp" using lm(2) by simp
    show "xs ! Suc i = snd bp" using lm(2) by simp
    show "\<forall>j<i. (xs ! j, xs ! Suc j) \<noteq> (fst bp, snd bp)" using lm(4) by simp
  qed
  have c4': "merge_symbols (fst bp) (snd bp) xs =
      take (Suc i) (spec_replace_at i xs) @
      merge_symbols (fst bp) (snd bp) (drop (Suc i) (spec_replace_at i xs))"
    using c4 lm(2) unfolding tk dr by simp
  have c5: "bp \<notin> set (adjacent_pairs (drop (Suc i) (spec_replace_at i xs))) \<longrightarrow>
      merge_symbols (fst bp) (snd bp) xs = spec_replace_at i xs"
  proof
    assume "bp \<notin> set (adjacent_pairs (drop (Suc i) (spec_replace_at i xs)))"
    then have "(fst bp, snd bp) \<notin> set (adjacent_pairs (drop (Suc i) (spec_replace_at i xs)))"
      by simp
    from merge_symbols_absent [OF this] c4'
    have "merge_symbols (fst bp) (snd bp) xs =
      take (Suc i) (spec_replace_at i xs) @ drop (Suc i) (spec_replace_at i xs)" by simp
    then show "merge_symbols (fst bp) (snd bp) xs = spec_replace_at i xs" by simp
  qed
  from c1 c2 c3 c4' c5 show ?thesis by blast
qed

text \<open>
  On a table with distinct ranks where merged symbols rank later, the single rewrites of
  the reference reach the result of the pass: after the leftmost rewrite the pairs
  around the new symbol rank later, every other pair was there before, so the next
  lowest candidate is again the same pair, at its next occurrence.
\<close>

lemma adjacent_pairs_simps:
  "adjacent_pairs [] = []"
  "adjacent_pairs [x] = []"
  "adjacent_pairs (x # y # rest) = (x, y) # adjacent_pairs (y # rest)"
  by (simp_all add: adjacent_pairs_def)

lemma adjacent_pairs_append:
  "set (adjacent_pairs (us @ vs)) =
     set (adjacent_pairs us) \<union> set (adjacent_pairs vs) \<union>
     (if us = [] \<or> vs = [] then {} else {(last us, hd vs)})"
proof (induction us)
  case Nil
  show ?case by (simp add: adjacent_pairs_simps)
next
  case (Cons u us)
  show ?case
  proof (cases us)
    case Nil
    then show ?thesis by (cases vs) (auto simp: adjacent_pairs_simps)
  next
    case (Cons u' us')
    with Cons.IH show ?thesis by (auto simp: adjacent_pairs_simps)
  qed
qed

lemma adjacent_pairs_append_left: "set (adjacent_pairs us) \<subseteq> set (adjacent_pairs (us @ vs))"
  by (auto simp: adjacent_pairs_append)

lemma adjacent_pairs_append_right: "set (adjacent_pairs vs) \<subseteq> set (adjacent_pairs (us @ vs))"
  by (auto simp: adjacent_pairs_append)

lemma adjacent_pairs_around:
  "p \<in> set (adjacent_pairs (us @ m # vs)) \<Longrightarrow>
     p \<in> set (adjacent_pairs us) \<or> p \<in> set (adjacent_pairs vs) \<or> fst p = m \<or> snd p = m"
proof -
  assume "p \<in> set (adjacent_pairs (us @ m # vs))"
  then have "p \<in> set (adjacent_pairs us) \<or> p \<in> set (adjacent_pairs (m # vs)) \<or> snd p = m"
    by (auto simp: adjacent_pairs_append split: if_splits)
  moreover have "p \<in> set (adjacent_pairs (m # vs)) \<Longrightarrow> p \<in> set (adjacent_pairs vs) \<or> fst p = m"
    by (cases vs) (auto simp: adjacent_pairs_simps)
  ultimately show ?thesis by blast
qed

lemma split_at_pair:
  "Suc i < length xs \<Longrightarrow> xs = take i xs @ xs ! i # xs ! Suc i # drop (i + 2) xs"
proof -
  assume a: "Suc i < length xs"
  then have "drop i xs = xs ! i # drop (Suc i) xs" by (simp add: Cons_nth_drop_Suc)
  moreover from a have "drop (Suc i) xs = xs ! Suc i # drop (Suc (Suc i)) xs"
    by (simp add: Cons_nth_drop_Suc)
  ultimately have "take i xs @ xs ! i # xs ! Suc i # drop (i + 2) xs = take i xs @ drop i xs"
    by simp
  also have "\<dots> = xs" by (rule append_take_drop_id)
  finally show ?thesis by (rule sym)
qed

lemma adjacent_pairs_nth:
  "Suc j < length xs \<Longrightarrow> (xs ! j, xs ! Suc j) \<in> set (adjacent_pairs xs)"
  unfolding adjacent_pairs_def in_set_zip by (auto simp: nth_tl intro!: exI [of _ j])

lemma adjacent_pairs_nthD:
  "p \<in> set (adjacent_pairs xs) \<Longrightarrow> \<exists>j. Suc j < length xs \<and> p = (xs ! j, xs ! Suc j)"
proof -
  assume "p \<in> set (adjacent_pairs xs)"
  then obtain n where n: "xs ! n = fst p" "tl xs ! n = snd p" "n < length xs" "n < length (tl xs)"
    unfolding adjacent_pairs_def in_set_zip by auto
  from n(4) have "Suc n < length xs" by simp
  moreover from n have "p = (xs ! n, xs ! Suc n)" by (simp add: nth_tl prod_eq_iff)
  ultimately show ?thesis by blast
qed

lemma merge_symbols_skip:
  "(a, b) \<notin> set (adjacent_pairs (pre @ [x])) \<Longrightarrow> x \<noteq> a \<Longrightarrow>
     merge_symbols a b (pre @ x # post) = pre @ x # merge_symbols a b post"
proof (induction pre)
  case Nil
  then show ?case by (cases post) auto
next
  case (Cons p pre)
  show ?case
  proof (cases pre)
    case Nil
    with Cons.prems have "\<not> (p = a \<and> x = b)" by (auto simp: adjacent_pairs_simps)
    moreover from Cons.prems(2) have "merge_symbols a b (x # post) = x # merge_symbols a b post"
      by (cases post) auto
    ultimately show ?thesis using Nil by auto
  next
    case (Cons p' pre')
    with Cons.prems have ne: "\<not> (p = a \<and> p' = b)"
      and r: "(a, b) \<notin> set (adjacent_pairs (pre @ [x]))"
      by (auto simp: adjacent_pairs_simps)
    from Cons.IH [OF r Cons.prems(2)] ne Cons show ?thesis by auto
  qed
qed

lemma min_candidate_None_iff: "min_candidate cs = None \<longleftrightarrow> cs = []"
  by (cases cs) auto

lemma map_of_key: "map_of tbl p = Some r \<Longrightarrow> p \<in> set (map fst tbl)"
proof -
  assume "map_of tbl p = Some r"
  then have "(p, r) \<in> set tbl" by (rule map_of_SomeD)
  then have "fst (p, r) \<in> fst ` set tbl" by (rule imageI)
  then show ?thesis by simp
qed

lemma distinct_ranksD:
  assumes "distinct_ranks tbl" "map_of tbl p = Some r" "map_of tbl q = Some r"
  shows "p = q"
proof -
  from assms(1) have "\<forall>p \<in> set (map fst tbl). \<forall>q \<in> set (map fst tbl).
      map_of tbl p = map_of tbl q \<longrightarrow> p = q"
    by (simp only: distinct_ranks_def)
  with map_of_key [OF assms(2)] map_of_key [OF assms(3)]
  have "map_of tbl p = map_of tbl q \<longrightarrow> p = q" by blast
  with assms(2,3) show ?thesis by simp
qed

lemma merged_ranked_laterD:
  assumes "merged_ranked_later tbl" "map_of tbl (a, b) = Some r" "map_of tbl (x, y) = Some r'"
    "x = a @ b \<or> y = a @ b"
  shows "r < r'"
proof -
  from assms(1) have "\<forall>p \<in> set (map fst tbl). \<forall>q \<in> set (map fst tbl).
      fst q = fst p @ snd p \<or> snd q = fst p @ snd p \<longrightarrow> dict_val tbl p < dict_val tbl q"
    by (simp only: merged_ranked_later_def)
  with map_of_key [OF assms(2)] map_of_key [OF assms(3)]
  have "fst (x, y) = fst (a, b) @ snd (a, b) \<or> snd (x, y) = fst (a, b) @ snd (a, b) \<longrightarrow>
      dict_val tbl (a, b) < dict_val tbl (x, y)" by blast
  with assms(4) have "dict_val tbl (a, b) < dict_val tbl (x, y)" by simp
  with assms(2,3) show ?thesis by (simp add: dict_val_def)
qed

lemma single_rewrites_reach_pass:
  assumes dr: "distinct_ranks tbl" and ml: "merged_ranked_later tbl"
    and key: "map_of tbl (a, b) = Some r"
    and inv: "\<forall>p \<in> set (adjacent_pairs xs). \<forall>r'. map_of tbl p = Some r' \<longrightarrow> r \<le> r'"
  shows "spec_segment tbl xs = spec_segment tbl (merge_symbols a b xs)"
  using inv
proof (induction "length xs" arbitrary: xs rule: less_induct)
  case less
  note inv = less.prems
  from merged_ranked_laterD [OF ml key key] have ab_a: "a @ b \<noteq> a" and ab_b: "a @ b \<noteq> b"
    by auto
  from key have ne: "tbl \<noteq> []" by auto
  show ?case
  proof (cases "(a, b) \<in> set (adjacent_pairs xs)")
    case False
    then show ?thesis by (simp add: merge_symbols_absent)
  next
    case True
    from adjacent_pairs_nthD [OF True] obtain j where
      j: "Suc j < length xs" "(a, b) = (xs ! j, xs ! Suc j)" by blast
    with key have "map_of tbl (xs ! j, xs ! Suc j) = Some r" by simp
    from candidates_from_complete [OF j(1) this, of 0]
    have cj: "(r, j, (a, b)) \<in> set (candidates_from 0 tbl xs)" using j(2) by simp
    then obtain c where "min_candidate (candidates_from 0 tbl xs) = Some c"
      by (cases "min_candidate (candidates_from 0 tbl xs)") (auto simp: min_candidate_None_iff)
    then obtain r0 i bp where m: "min_candidate (candidates_from 0 tbl xs) = Some (r0, i, bp)"
      by (cases c) auto
    note lm = min_candidate_leftmost [OF m]
    from adjacent_pairs_nth [OF lm(1)] lm(2) have "bp \<in> set (adjacent_pairs xs)" by simp
    with inv lm(3) have "r \<le> r0" by blast
    moreover from min_candidate_least [OF m cj] have "\<not> r < r0" by auto
    ultimately have r0: "r0 = r" by simp
    from distinct_ranksD [OF dr lm(3) [unfolded r0] key] have bp: "bp = (a, b)" .
    let ?pre = "take i xs" and ?post = "drop (i + 2) xs"
    from lm(2) bp have e: "xs ! i = a" "xs ! Suc i = b" by simp_all
    have xs: "?pre @ a # b # ?post = xs"
      using split_at_pair [OF lm(1)] unfolding e by (rule sym)
    have xs1: "spec_replace_at i xs = ?pre @ (a @ b) # ?post"
      using e by (simp add: spec_replace_at_def)
    have step: "spec_segment tbl xs = spec_segment tbl (spec_replace_at i xs)"
      using ne m by (simp add: spec_segment.simps [of tbl xs])
    have pass: "merge_symbols a b xs = ?pre @ (a @ b) # merge_symbols a b ?post"
      using merge_symbols_leftmost [of i xs a b] lm(1,4) e bp by simp
    have sub: "set (adjacent_pairs ?pre) \<subseteq> set (adjacent_pairs xs)"
      "set (adjacent_pairs ?post) \<subseteq> set (adjacent_pairs xs)"
    proof -
      from adjacent_pairs_append_left [of ?pre "a # b # ?post"]
      show "set (adjacent_pairs ?pre) \<subseteq> set (adjacent_pairs xs)" unfolding xs .
      have "(?pre @ [a, b]) @ ?post = xs" using xs by simp
      with adjacent_pairs_append_right [of ?post "?pre @ [a, b]"]
      show "set (adjacent_pairs ?post) \<subseteq> set (adjacent_pairs xs)" by simp
    qed
    have nopre: "(a, b) \<notin> set (adjacent_pairs ?pre)"
    proof
      assume "(a, b) \<in> set (adjacent_pairs ?pre)"
      from adjacent_pairs_nthD [OF this] obtain k where
        k: "Suc k < length ?pre" "(a, b) = (?pre ! k, ?pre ! Suc k)" by blast
      from k(1) have "Suc k < i" by simp
      with k(2) have "(xs ! k, xs ! Suc k) = (a, b)" by simp
      moreover from \<open>Suc k < i\<close> have "k < i" by simp
      ultimately show False using lm(4) bp by blast
    qed
    have nopre': "(a, b) \<notin> set (adjacent_pairs (?pre @ [a @ b]))"
      using nopre ab_b by (auto simp: adjacent_pairs_append adjacent_pairs_simps)
    have same: "merge_symbols a b (spec_replace_at i xs) = merge_symbols a b xs"
      unfolding xs1 pass using merge_symbols_skip [OF nopre' ab_a] by simp
    have inv1: "\<forall>p \<in> set (adjacent_pairs (spec_replace_at i xs)).
                  \<forall>r'. map_of tbl p = Some r' \<longrightarrow> r \<le> r'"
    proof (intro ballI allI impI)
      fix p r' assume p: "p \<in> set (adjacent_pairs (spec_replace_at i xs))"
        and k: "map_of tbl p = Some r'"
      obtain x y where xy: "p = (x, y)" by (cases p)
      from p have "p \<in> set (adjacent_pairs (?pre @ (a @ b) # ?post))" unfolding xs1 by simp
      from adjacent_pairs_around [OF this]
      have "p \<in> set (adjacent_pairs ?pre) \<or> p \<in> set (adjacent_pairs ?post) \<or>
                 fst p = a @ b \<or> snd p = a @ b" .
      then show "r \<le> r'"
      proof (elim disjE)
        assume "p \<in> set (adjacent_pairs ?pre)"
        with sub(1) inv k show ?thesis by blast
      next
        assume "p \<in> set (adjacent_pairs ?post)"
        with sub(2) inv k show ?thesis by blast
      next
        assume "fst p = a @ b"
        with merged_ranked_laterD [OF ml key, of x y r'] k xy show ?thesis by simp
      next
        assume "snd p = a @ b"
        with merged_ranked_laterD [OF ml key, of x y r'] k xy show ?thesis by simp
      qed
    qed
    have len: "length (spec_replace_at i xs) < length xs"
      by (rule spec_replace_at_shorter [OF lm(1)])
    from less.hyps [OF len inv1] have
      "spec_segment tbl (spec_replace_at i xs) =
         spec_segment tbl (merge_symbols a b (spec_replace_at i xs))" .
    with step same show ?thesis by simp
  qed
qed

lemma bpe_loop_eq_spec_segment:
  assumes dr: "distinct_ranks tbl" and ml: "merged_ranked_later tbl" and ne: "tbl \<noteq> []"
  shows "bpe_loop tbl xs = spec_segment tbl xs"
proof (induction "length xs" arbitrary: xs rule: less_induct)
  case less
  show ?case
  proof (cases "min_candidate (candidates_from 0 tbl xs)")
    case None
    with ne show ?thesis
      by (simp add: bpe_loop.simps [of tbl xs] spec_segment.simps [of tbl xs])
  next
    case (Some c)
    obtain r i bp where c: "c = (r, i, bp)" by (cases c)
    obtain a b where bp: "bp = (a, b)" by (cases bp)
    from Some c bp have m: "min_candidate (candidates_from 0 tbl xs) = Some (r, i, (a, b))"
      by simp
    note lm = min_candidate_leftmost [OF m]
    have inv: "\<forall>p \<in> set (adjacent_pairs xs). \<forall>r'. map_of tbl p = Some r' \<longrightarrow> r \<le> r'"
    proof (intro ballI allI impI)
      fix p r' assume p: "p \<in> set (adjacent_pairs xs)" and k: "map_of tbl p = Some r'"
      from adjacent_pairs_nthD [OF p] obtain j where
        j: "Suc j < length xs" "p = (xs ! j, xs ! Suc j)" by blast
      from k j(2) have "map_of tbl (xs ! j, xs ! Suc j) = Some r'" by simp
      from candidates_from_complete [OF j(1) this, of 0]
      have "(r', j, (xs ! j, xs ! Suc j)) \<in> set (candidates_from 0 tbl xs)" by simp
      from min_candidate_least [OF m this] show "r \<le> r'" by auto
    qed
    have shorter: "length (merge_symbols a b xs) < length xs"
    proof -
      from adjacent_pairs_nth [OF lm(1)] lm(2)
      have "(a, b) \<in> set (adjacent_pairs xs)" by simp
      then show ?thesis by (rule merge_symbols_shorter)
    qed
    have "bpe_loop tbl xs = bpe_loop tbl (merge_symbols a b xs)"
      using m by (simp add: bpe_loop.simps [of tbl xs])
    also have "\<dots> = spec_segment tbl (merge_symbols a b xs)"
      by (rule less.hyps [OF shorter])
    also have "\<dots> = spec_segment tbl xs"
      by (rule single_rewrites_reach_pass [OF dr ml lm(3) inv, symmetric])
    finally show ?thesis .
  qed
qed

text \<open>
  C2 (as amended). The loop of \<open>_encode_word\<close> / \<open>_encode_bytes\<close> rewrites in one iteration
  every non-overlapping occurrence of the lowest-ranked pair, from the left. For every
  symbol sequence, and every merge-rank table in which different pairs have different
  ranks and a pair with a merged symbol \<open>u + v\<close> as a component ranks after \<open>(u, v)\<close>, its
  output equals the output of the reference algorithm that rewrites the single leftmost
  occurrence of the lowest-ranked pair and scans again.
\<close>

theorem segment_eq_single_rewrite:
  assumes "distinct_ranks tbl" and "merged_ranked_later tbl"
  shows "segment tbl xs = spec_segment tbl xs"
proof (cases "tbl = []")
  case True
  then show ?thesis by (simp add: segment_def spec_segment.simps [of "[]" xs])
next
  case False
  with bpe_loop_eq_spec_segment [OF assms False] show ?thesis by (simp add: segment_def)
qed

theorem segment_eq_single_rewrite_witness:
  "distinct_ranks [((''a'', ''b''), 0), ((''ab'', ''a''), 1 :: int)] \<and>
   merged_ranked_later [((''a'', ''b''), 0), ((''ab'', ''a''), 1)] \<and>
   segment [((''a'', ''b''), 0), ((''ab'', ''a''), 1)] [''a'', ''b'', ''a'', ''b''] = [''ab'', ''ab''] \<and>
   spec_segment [((''a'', ''b''), 0), ((''ab'', ''a''), 1)] [''a'', ''b'', ''a'', ''b'']
     = [''ab'', ''ab'']"
proof -
  have d: "distinct_ranks [((''a'', ''b''), 0), ((''ab'', ''a''), 1 :: int)]"
    by (simp add: distinct_ranks_def)
  have l: "merged_ranked_later [((''a'', ''b''), 0), ((''ab'', ''a''), 1)]"
    by (simp add: merged_ranked_later_def dict_val_def)
  have s: "segment [((''a'', ''b''), 0), ((''ab'', ''a''), 1)] [''a'', ''b'', ''a'', ''b'']
      = [''ab'', ''ab'']"
    by (simp add: segment_def bpe_loop.simps)
  from segment_eq_single_rewrite [OF d l, of "[''a'', ''b'', ''a'', ''b'']"] d l s
  show ?thesis by simp
qed

text \<open>
  C2 as stated, for every table, fails: with the rank-inverted table
  \<open>{(a, b): 1, (ab, a): 0}\<close> and the symbols \<open>a b a b\<close> the loop of the source merges both occurrences of \<open>(a, b)\<close> in its first
  pass and ends with \<open>ab ab\<close>; the reference rewrites the left one only, finds
  \<open>(ab, a)\<close> of rank 0 and ends with \<open>aba b\<close>.
\<close>

theorem segment_differs_from_single_rewrite:
  "segment [((''a'', ''b''), 1), ((''ab'', ''a''), 0)] [''a'', ''b'', ''a'', ''b'']
     = [''ab'', ''ab''] \<and>
   spec_segment [((''a'', ''b''), 1), ((''ab'', ''a''), 0)] [''a'', ''b'', ''a'', ''b'']
     = [''aba'', ''b'']"
  by (simp add: segment_def bpe_loop.simps spec_segment.simps spec_replace_at_def)

section \<open>Properties of the token maps\<close>

lemma build_maps_fst:
  "fst (fold (\<lambda>(idx, token) (t2i, i2t). (AList.update token idx t2i, AList.update idx token i2t)) xs (a, b))
     = fold (\<lambda>(idx, token) t2i. AList.update token idx t2i) xs a"
  by (induction xs arbitrary: a b) (auto simp: case_prod_beta)

lemma build_maps_snd:
  "snd (fold (\<lambda>(idx, token) (t2i, i2t). (AList.update token idx t2i, AList.update idx token i2t)) xs (a, b))
     = fold (\<lambda>(idx, token) i2t. AList.update idx token i2t) xs b"
  by (induction xs arbitrary: a b) (auto simp: case_prod_beta)

lemma t2i_notin:
  "t \<notin> set vl \<Longrightarrow>
   map_of (fold (\<lambda>(idx, token) t2i. AList.update token idx t2i) (py_enumerate k vl) a) t = map_of a t"
  by (induction vl arbitrary: k a) (auto simp: update_conv')

lemma t2i_in_dom:
  "t \<in> set vl \<Longrightarrow>
   \<exists>j. map_of (fold (\<lambda>(idx, token) t2i. AList.update token idx t2i) (py_enumerate k vl) a) t = Some j
       \<and> k \<le> j \<and> j < k + int (length vl) \<and> vl ! nat (j - k) = t"
proof (induction vl arbitrary: k a)
  case Nil
  then show ?case by simp
next
  case (Cons x vl)
  show ?case
  proof (cases "t \<in> set vl")
    case True
    from Cons.IH [OF True, of "k + 1" "AList.update x k a"]
    obtain j where j: "map_of (fold (\<lambda>(idx, token) t2i. AList.update token idx t2i)
         (py_enumerate (k + 1) vl) (AList.update x k a)) t = Some j"
      "k + 1 \<le> j" "j < k + 1 + int (length vl)" "vl ! nat (j - (k + 1)) = t" by blast
    from j(2) have "nat (j - k) = Suc (nat (j - (k + 1)))" by simp
    with j show ?thesis by auto
  next
    case False
    with Cons.prems have e: "t = x" by simp
    from False have "map_of (fold (\<lambda>(idx, token) t2i. AList.update token idx t2i)
         (py_enumerate (k + 1) vl) (AList.update x k a)) t = map_of (AList.update x k a) t"
      by (rule t2i_notin)
    with e show ?thesis by (simp add: update_conv')
  qed
qed

lemma t2i_distinct:
  "distinct vl \<Longrightarrow> i < length vl \<Longrightarrow>
   map_of (fold (\<lambda>(idx, token) t2i. AList.update token idx t2i) (py_enumerate k vl) a) (vl ! i)
     = Some (k + int i)"
proof (induction vl arbitrary: k a i)
  case Nil
  then show ?case by simp
next
  case (Cons x vl)
  show ?case
  proof (cases i)
    case 0
    from Cons.prems have "x \<notin> set vl" by simp
    from t2i_notin [OF this, of "k + 1" "AList.update x k a"] 0
    show ?thesis by (simp add: update_conv')
  next
    case (Suc i')
    with Cons.prems have "distinct vl" "i' < length vl" by auto
    from Cons.IH [OF this, of "k + 1" "AList.update x k a"] Suc show ?thesis by simp
  qed
qed

lemma i2t_lookup:
  "map_of (fold (\<lambda>(idx, token) i2t. AList.update idx token i2t) (py_enumerate k vl) b) j =
     (if k \<le> j \<and> j < k + int (length vl) then Some (vl ! nat (j - k)) else map_of b j)"
proof (induction vl arbitrary: k b)
  case Nil
  then show ?case by auto
next
  case (Cons x vl)
  have s: "k + 1 \<le> j \<Longrightarrow> nat (j - k) = Suc (nat (j - (k + 1)))" by simp
  show ?case
  proof (cases "k + 1 \<le> j")
    case True
    with Cons.IH [of "k + 1" "AList.update k x b"] s show ?thesis
      by (auto simp: update_conv')
  next
    case False
    with Cons.IH [of "k + 1" "AList.update k x b"] show ?thesis
      by (auto simp: update_conv')
  qed
qed

lemma fold_update_nonempty:
  "(fold (\<lambda>(idx, token) t2i. AList.update token idx t2i) xs a = []) \<longleftrightarrow> (xs = [] \<and> a = [])"
  by (induction xs arbitrary: a) (auto simp: case_prod_beta)

lemma fold_update_nonempty':
  "(fold (\<lambda>(idx, token) i2t. AList.update idx token i2t) xs a = []) \<longleftrightarrow> (xs = [] \<and> a = [])"
  by (induction xs arbitrary: a) (auto simp: case_prod_beta)

lemma py_enumerate_Nil_iff: "py_enumerate k xs = [] \<longleftrightarrow> xs = []"
  by (cases xs) auto

lemma build_maps_t2i_empty: "fst (build_maps vl) = [] \<longleftrightarrow> vl = []"
  by (simp add: build_maps_def build_maps_fst fold_update_nonempty py_enumerate_Nil_iff)

lemma build_maps_i2t_empty: "snd (build_maps vl) = [] \<longleftrightarrow> vl = []"
  by (simp add: build_maps_def build_maps_snd fold_update_nonempty' py_enumerate_Nil_iff)

lemma build_maps_i2t:
  "map_of (snd (build_maps vl)) j =
     (if 0 \<le> j \<and> j < int (length vl) then Some (vl ! nat j) else None)"
  by (simp add: build_maps_def build_maps_snd i2t_lookup)

lemma build_maps_t2i_notin: "t \<notin> set vl \<Longrightarrow> map_of (fst (build_maps vl)) t = None"
  by (simp add: build_maps_def build_maps_fst t2i_notin)

lemma build_maps_t2i_in:
  "t \<in> set vl \<Longrightarrow> \<exists>j. map_of (fst (build_maps vl)) t = Some j \<and> 0 \<le> j \<and> j < int (length vl) \<and> vl ! nat j = t"
  using t2i_in_dom [of t vl 0 "[]"] by (simp add: build_maps_def build_maps_fst)

lemma build_maps_t2i_distinct:
  "distinct vl \<Longrightarrow> i < length vl \<Longrightarrow> map_of (fst (build_maps vl)) (vl ! i) = Some (int i)"
  using t2i_distinct [of vl i 0 "[]"] by (simp add: build_maps_def build_maps_fst)

lemma build_maps_inverse:
  assumes "distinct vl"
  shows "map_of (fst (build_maps vl)) t = Some j \<longleftrightarrow> map_of (snd (build_maps vl)) j = Some t"
proof
  assume a: "map_of (fst (build_maps vl)) t = Some j"
  then have "t \<in> set vl" using build_maps_t2i_notin [of t vl] by force
  from build_maps_t2i_in [OF this] a have "0 \<le> j" "j < int (length vl)" "vl ! nat j = t" by auto
  then show "map_of (snd (build_maps vl)) j = Some t" by (simp add: build_maps_i2t)
next
  assume "map_of (snd (build_maps vl)) j = Some t"
  then have j: "0 \<le> j" "j < int (length vl)" "vl ! nat j = t"
    by (auto simp: build_maps_i2t split: if_splits)
  then have "nat j < length vl" by simp
  from build_maps_t2i_distinct [OF assms this] j show "map_of (fst (build_maps vl)) t = Some j"
    by simp
qed

lemma train_from_fields:
  "num_merges (train_from specials tok self vocab0) = num_merges self"
  "(bpe_vocab (train_from specials tok self vocab0), merges (train_from specials tok self vocab0))
     = train_loop (nat (num_merges self)) (vocab0, merges self)"
  "pair2rank (train_from specials tok self vocab0)
     = build_pair2rank (merges (train_from specials tok self vocab0))"
  "token_to_id (train_from specials tok self vocab0)
     = fst (build_maps (vocab_list_of specials tok (bpe_vocab (train_from specials tok self vocab0))))"
  "id_to_token (train_from specials tok self vocab0)
     = snd (build_maps (vocab_list_of specials tok (bpe_vocab (train_from specials tok self vocab0))))"
  by (simp_all add: train_from_def vocab_list_of_def Let_def split: prod.splits)

section \<open>Errors of \<open>encode\<close> and \<open>decode\<close>\<close>

lemma utf8_encode_char_error: "utf8_encode_char c = Inl e \<Longrightarrow> e = UnicodeEncodeError"
  by (auto simp: utf8_encode_char_def split: if_splits)

lemma utf8_encode_nat_error: "utf8_encode_nat s = Inl e \<Longrightarrow> e = UnicodeEncodeError"
  by (induction s) (auto split: sum.splits dest: utf8_encode_char_error)

lemma utf8_encode_error: "utf8_encode s = Inl e \<Longrightarrow> e = UnicodeEncodeError"
  by (auto simp: utf8_encode_def split: sum.splits dest: utf8_encode_nat_error)

lemma tokens_to_ids_error: "tokens_to_ids t2i unk toks = Inl e \<Longrightarrow> e = KeyError"
  by (auto simp: tokens_to_ids_def split: option.splits)

lemma join_bytes_error: "join_bytes ts = Inl e \<Longrightarrow> e = TypeError"
  by (induction ts rule: join_bytes.induct) (auto split: sum.splits)

lemma encode_ValueError_iff: "encode U self inp = Inl ValueError \<longleftrightarrow> token_to_id self = []"
  by (auto simp: encode_def Let_def dest: tokens_to_ids_error)

lemma decode_ValueError_iff: "decode self ids = Inl ValueError \<longleftrightarrow> id_to_token self = []"
  by (auto simp: decode_def Let_def split: prod.splits)

lemma encode_b_ValueError_iff: "encode_b U self inp = Inl ValueError \<longleftrightarrow> token_to_id self = []"
  by (auto simp: encode_b_def split: sum.splits dest: tokens_to_ids_error utf8_encode_error)

lemma decode_b_ValueError_iff: "decode_b self ids = Inl ValueError \<longleftrightarrow> id_to_token self = []"
  by (auto simp: decode_b_def Let_def split: sum.splits dest: join_bytes_error)

lemma train_from_maps_nonempty:
  "specials \<noteq> [] \<Longrightarrow> token_to_id (train_from specials tok self v0) \<noteq> [] \<and>
     id_to_token (train_from specials tok self v0) \<noteq> []"
  by (simp add: train_from_fields build_maps_t2i_empty build_maps_i2t_empty vocab_list_of_def)

lemma SPECIAL_TOKENS_nonempty: "SPECIAL_TOKENS \<noteq> []"
  by (simp add: SPECIAL_TOKENS_def)

lemma train_loop_empty: "train_loop n ([], ms) = ([], ms)"
  by (cases n) (simp_all add: get_pair_stats_def)

lemma special_maps:
  "build_maps SPECIAL_TOKENS =
     ([(ustr ''<pad>'', 0), (ustr ''<unk>'', 1), (ustr ''<bos>'', 2), (ustr ''<eos>'', 3)],
      [(0, ustr ''<pad>''), (1, ustr ''<unk>''), (2, ustr ''<bos>''), (3, ustr ''<eos>'')])"
  by (simp add: build_maps_def SPECIAL_TOKENS_def ustr_def)

lemma train_empty_corpus:
  "token_to_id (train U self []) =
     [(ustr ''<pad>'', 0), (ustr ''<unk>'', 1), (ustr ''<bos>'', 2), (ustr ''<eos>'', 3)]"
  "id_to_token (train U self []) =
     [(0, ustr ''<pad>''), (1, ustr ''<unk>''), (2, ustr ''<bos>''), (3, ustr ''<eos>'')]"
  by (simp_all add: train_def train_from_def get_bpe_vocab_from_corpus_def train_loop_empty
      sorted_symbols_def special_maps)

text \<open>
  C8. \<open>encode\<close> and \<open>decode\<close> raise the precondition error (\<open>ValueError\<close>) exactly
  when the map they test is empty, in both classes; a new instance has empty maps; after
  \<open>train\<close> the maps are not empty, and on an empty corpus they hold the four special
  tokens only.
\<close>

theorem precondition_error_iff_untrained:
  "(encode U self inp = Inl ValueError \<longleftrightarrow> token_to_id self = []) \<and>
   (decode self ids = Inl ValueError \<longleftrightarrow> id_to_token self = []) \<and>
   (encode_b U selfb inp = Inl ValueError \<longleftrightarrow> token_to_id selfb = []) \<and>
   (decode_b selfb ids = Inl ValueError \<longleftrightarrow> id_to_token selfb = []) \<and>
   token_to_id (init n :: (ustr, ustr) tokenizer) = [] \<and>
   id_to_token (init n :: (ustr, ustr) tokenizer) = [] \<and>
   token_to_id (init n :: (string, btoken) tokenizer) = [] \<and>
   id_to_token (init n :: (string, btoken) tokenizer) = [] \<and>
   token_to_id (train U self corpus) \<noteq> [] \<and> id_to_token (train U self corpus) \<noteq> [] \<and>
   map fst (token_to_id (train U self [])) = SPECIAL_TOKENS \<and>
   map snd (id_to_token (train U self [])) = SPECIAL_TOKENS \<and>
   (\<forall>T. train_b U selfb corpus = Inr T \<longrightarrow> token_to_id T \<noteq> [] \<and> id_to_token T \<noteq> [])"
proof -
  have b: "\<forall>T. train_b U selfb corpus = Inr T \<longrightarrow> token_to_id T \<noteq> [] \<and> id_to_token T \<noteq> []"
    using train_from_maps_nonempty [of "map TStr SPECIAL_TOKENS" TBytes selfb]
    by (auto simp: train_b_def SPECIAL_TOKENS_nonempty split: sum.splits)
  have c: "token_to_id (train U self corpus) \<noteq> [] \<and> id_to_token (train U self corpus) \<noteq> []"
    unfolding train_def by (rule train_from_maps_nonempty) (rule SPECIAL_TOKENS_nonempty)
  have e: "map fst (token_to_id (train U self [])) = SPECIAL_TOKENS"
    "map snd (id_to_token (train U self [])) = SPECIAL_TOKENS"
    by (simp_all add: train_empty_corpus SPECIAL_TOKENS_def)
  show ?thesis
    using b c e
    by (simp add: encode_ValueError_iff decode_ValueError_iff encode_b_ValueError_iff
        decode_b_ValueError_iff init_def)
qed


theorem precondition_error_iff_untrained_witness:
  "train_b ascii_lib (init 3) [] = Inr (train_from (map TStr SPECIAL_TOKENS) TBytes (init 3) []) \<and>
   token_to_id (train_from (map TStr SPECIAL_TOKENS) TBytes (init 3) []) \<noteq> [] \<and>
   id_to_token (train_from (map TStr SPECIAL_TOKENS) TBytes (init 3) []) \<noteq> [] \<and>
   encode_b ascii_lib (init 3) [] = Inl ValueError \<and>
   decode (init 3) [2, 3] = Inl ValueError \<and>
   encode ascii_lib (train ascii_lib (init 3) []) [] \<noteq> Inl ValueError \<and>
   decode (train ascii_lib (init 3) []) [2, 3] \<noteq> Inl ValueError"
proof -
  have h: "train_b ascii_lib (init 3) [] =
      Inr (train_from (map TStr SPECIAL_TOKENS) TBytes (init 3) [])"
    by (simp add: train_b_def)
  from precondition_error_iff_untrained
    [where U = ascii_lib, where selfb = "init 3", where corpus = "[]",
     where self = "train ascii_lib (init 3) []", where inp = "[]", where ids = "[2, 3]"] h
  have a: "encode ascii_lib (train ascii_lib (init 3) []) [] \<noteq> Inl ValueError"
    "decode (train ascii_lib (init 3) []) [2, 3] \<noteq> Inl ValueError"
    "encode_b ascii_lib (init 3) [] = Inl ValueError"
    "token_to_id (train_from (map TStr SPECIAL_TOKENS) TBytes (init 3) []) \<noteq> []"
    "id_to_token (train_from (map TStr SPECIAL_TOKENS) TBytes (init 3) []) \<noteq> []"
    by (simp_all add: train_empty_corpus)
  have b: "decode (init 3) [2, 3] = Inl ValueError"
    by (simp add: decode_def init_def)
  from h a b show ?thesis by simp
qed

section \<open>Properties of training\<close>

lemma fold_max_first:
  fixes f :: "'k \<Rightarrow> int"
  defines "g \<equiv> (\<lambda>k best. if f k > f best then k else best)"
  shows "fold g ks b \<in> set (b # ks) \<and>
         (\<forall>k \<in> set (b # ks). f k \<le> f (fold g ks b)) \<and>
         (\<forall>q \<in> set (takeWhile (\<lambda>k. k \<noteq> fold g ks b) (b # ks)). f q < f (fold g ks b))"
proof (induction ks arbitrary: b)
  case Nil
  show ?case by simp
next
  case (Cons x ks)
  let ?b' = "g x b"
  let ?m = "fold g ks ?b'"
  have m: "fold g (x # ks) b = ?m" by simp
  from Cons.IH [of ?b'] have
    i1: "?m \<in> set (?b' # ks)" and
    i2: "\<forall>k \<in> set (?b' # ks). f k \<le> f ?m" and
    i3: "\<forall>q \<in> set (takeWhile (\<lambda>k. k \<noteq> ?m) (?b' # ks)). f q < f ?m"
    by blast+
  have b': "?b' = b \<and> f x \<le> f b \<or> ?b' = x \<and> f b < f x" by (auto simp: g_def)
  from i2 have fb': "f ?b' \<le> f ?m" by simp
  have c1: "?m \<in> set (b # x # ks)" using i1 b' by auto
  have c2: "\<forall>k \<in> set (b # x # ks). f k \<le> f ?m"
  proof
    fix k assume "k \<in> set (b # x # ks)"
    then consider "k = b" | "k = x" | "k \<in> set ks" by auto
    then show "f k \<le> f ?m"
    proof cases
      case 1 then show ?thesis using b' fb' by auto
    next
      case 2 then show ?thesis using b' fb' by auto
    next
      case 3 then show ?thesis using i2 by simp
    qed
  qed
  have c3: "\<forall>q \<in> set (takeWhile (\<lambda>k. k \<noteq> ?m) (b # x # ks)). f q < f ?m"
  proof (cases "?m = b")
    case True
    then show ?thesis by simp
  next
    case nb: False
    from b' show ?thesis
    proof
      assume a: "?b' = b \<and> f x \<le> f b"
      with i3 nb have hb: "f b < f ?m"
        and rest: "\<forall>q \<in> set (takeWhile (\<lambda>k. k \<noteq> ?m) ks). f q < f ?m" by auto
      from a hb have "f x < f ?m" by simp
      with hb rest nb show ?thesis by auto
    next
      assume a: "?b' = x \<and> f b < f x"
      with fb' have hb: "f b < f ?m" by simp
      from a i3 have "\<forall>q \<in> set (takeWhile (\<lambda>k. k \<noteq> ?m) (x # ks)). f q < f ?m" by simp
      with hb nb show ?thesis by auto
    qed
  qed
  from c1 c2 c3 show ?case unfolding m by blast
qed

lemma max_key_first_max:
  assumes "max_key pc = Some p"
  shows "p \<in> set (map fst pc)"
    and "\<forall>q \<in> set (map fst pc). dict_val pc q \<le> dict_val pc p"
    and "\<forall>q \<in> set (takeWhile (\<lambda>k. k \<noteq> p) (map fst pc)). dict_val pc q < dict_val pc p"
proof -
  from assms obtain a ps where pc: "pc = a # ps" by (cases pc) auto
  with assms have p: "p = fold (\<lambda>k best. if dict_val pc k > dict_val pc best then k else best)
      (map fst ps) (fst a)" by simp
  from fold_max_first [of "dict_val pc" "map fst ps" "fst a"] pc
  show "p \<in> set (map fst pc)"
    and "\<forall>q \<in> set (map fst pc). dict_val pc q \<le> dict_val pc p"
    and "\<forall>q \<in> set (takeWhile (\<lambda>k. k \<noteq> p) (map fst pc)). dict_val pc q < dict_val pc p"
    unfolding p by simp_all
qed

lemma train_loop_merges:
  "\<exists>new. snd (train_loop n (v, ms)) = ms @ new \<and> length new \<le> n"
proof (induction n arbitrary: v ms)
  case 0
  show ?case by simp
next
  case (Suc n)
  show ?case
  proof (cases "max_key (get_pair_stats v)")
    case None
    then show ?thesis by simp
  next
    case (Some p)
    show ?thesis
    proof (cases "dict_val (get_pair_stats v) p < 2")
      case True
      with Some show ?thesis by simp
    next
      case False
      from Suc.IH [of "merge_vocab p v" "ms @ [p]"] obtain new where
        "snd (train_loop n (merge_vocab p v, ms @ [p])) = (ms @ [p]) @ new" "length new \<le> n"
        by blast
      with Some False have "snd (train_loop (Suc n) (v, ms)) = ms @ (p # new) \<and> length (p # new) \<le> Suc n"
        by simp
      then show ?thesis by blast
    qed
  qed
qed

lemma train_loop_length:
  "length ms \<le> length (snd (train_loop n (v, ms))) \<and>
   length (snd (train_loop n (v, ms))) \<le> length ms + n"
  using train_loop_merges [of n v ms] by auto

lemmas text_eval = ustr_def normalize_def ascii_lib_def py_strip_def is_space_def
lemmas train_eval = get_pair_stats_def merge_vocab_def dict_add_def dict_val_def
  adjacent_pairs_def word_symbols_def eow_def

lemma aa_vocab:
  "get_bpe_vocab_from_corpus ascii_lib [ustr ''aa aa''] = [([[97], [97], [60, 47, 119, 62]], 2)]"
  by (simp add: get_bpe_vocab_from_corpus_def text_eval train_eval)

lemma aa_stats:
  "get_pair_stats [([[97::nat], [97], [60, 47, 119, 62]], 2)] =
     [(([97], [97]), 2), (([97], [60, 47, 119, 62]), 2)]"
  by (simp add: train_eval)

lemma aa_step:
  "train_loop (Suc 0) ([([[97::nat], [97], [60, 47, 119, 62]], 2)], ms) =
     ([([[97, 97], [60, 47, 119, 62]], 2)], ms @ [([97], [97])])"
  by (simp add: aa_stats) (simp add: train_eval)

lemma train_merges:
  "merges (train U self corpus) =
     snd (train_loop (nat (num_merges self)) (get_bpe_vocab_from_corpus U corpus, merges self))"
  using train_from_fields(2) [of SPECIAL_TOKENS "\<lambda>s. s" self "get_bpe_vocab_from_corpus U corpus"]
  by (simp add: train_def prod_eq_iff)

lemma train_num_merges: "num_merges (train U self corpus) = num_merges self"
  by (simp add: train_def train_from_fields)

lemma train_loop_starved:
  "length (snd (train_loop n (v, ms))) < length ms + n \<Longrightarrow> starved (fst (train_loop n (v, ms)))"
proof (induction n arbitrary: v ms)
  case 0
  then show ?case by simp
next
  case (Suc n)
  show ?case
  proof (cases "max_key (get_pair_stats v)")
    case None
    then show ?thesis by (simp add: starved_def)
  next
    case (Some p)
    show ?thesis
    proof (cases "dict_val (get_pair_stats v) p < 2")
      case True
      with Some show ?thesis by (simp add: starved_def)
    next
      case False
      with Some have e: "train_loop (Suc n) (v, ms) = train_loop n (merge_vocab p v, ms @ [p])"
        by simp
      from Suc.prems have "length (snd (train_loop n (merge_vocab p v, ms @ [p]))) < length (ms @ [p]) + n"
        unfolding e by simp
      from Suc.IH [OF this] show ?thesis unfolding e .
    qed
  qed
qed

lemma train_fresh_bound:
  assumes "merges self = []"
  shows "length (merges (train U self corpus)) \<le> nat (num_merges self)"
    and "length (merges (train U self corpus)) < nat (num_merges self) \<Longrightarrow>
           starved (bpe_vocab (train U self corpus))"
proof -
  let ?v = "get_bpe_vocab_from_corpus U corpus"
  from train_from_fields(2) [of SPECIAL_TOKENS "\<lambda>s. s" self ?v]
  have f: "bpe_vocab (train U self corpus) = fst (train_loop (nat (num_merges self)) (?v, merges self))"
    by (simp add: train_def prod_eq_iff)
  from train_loop_length [of "merges self" "nat (num_merges self)" ?v] assms
  show "length (merges (train U self corpus)) \<le> nat (num_merges self)"
    by (simp add: train_merges)
  assume "length (merges (train U self corpus)) < nat (num_merges self)"
  with assms have "length (snd (train_loop (nat (num_merges self)) (?v, []))) < length ([] :: (ustr \<times> ustr) list) + nat (num_merges self)"
    by (simp add: train_merges)
  from train_loop_starved [OF this] assms show "starved (bpe_vocab (train U self corpus))"
    unfolding f by simp
qed

text \<open>
  C5. \<open>train\<close> clears \<open>token_to_id\<close> and \<open>id_to_token\<close> and rebuilds \<open>_bpe_vocab\<close> and
  \<open>pair2rank\<close>, but appends to \<open>self.merges\<close> as the last call left it. An instance with
  \<open>num_merges = 1\<close> trained twice on the corpus \<open>["aa aa"]\<close> holds two merges.
\<close>

theorem retrain_exceeds_budget:
  "num_merges (train ascii_lib (train ascii_lib (init 1) [ustr ''aa aa'']) [ustr ''aa aa'']) = 1 \<and>
   merges (train ascii_lib (init 1) [ustr ''aa aa'']) = [(ustr ''a'', ustr ''a'')] \<and>
   merges (train ascii_lib (train ascii_lib (init 1) [ustr ''aa aa'']) [ustr ''aa aa''])
     = [(ustr ''a'', ustr ''a''), (ustr ''a'', ustr ''a'')] \<and>
   int (length (merges (train ascii_lib (train ascii_lib (init 1) [ustr ''aa aa'']) [ustr ''aa aa''])))
     > num_merges (train ascii_lib (train ascii_lib (init 1) [ustr ''aa aa'']) [ustr ''aa aa''])"
proof -
  let ?c = "[ustr ''aa aa'']"
  let ?T1 = "train ascii_lib (init 1) ?c"
  have k0: "nat (num_merges (init 1 :: (ustr, ustr) tokenizer)) = Suc 0"
    and e0: "merges (init 1 :: (ustr, ustr) tokenizer) = []"
    by (simp_all add: init_def)
  have k1: "num_merges ?T1 = 1"
    by (simp add: train_num_merges) (simp add: init_def)
  have m1: "merges ?T1 = [([97], [97])]"
    unfolding train_merges aa_vocab k0 e0 aa_step by simp
  have k: "num_merges (train ascii_lib ?T1 ?c) = 1"
    by (simp add: train_num_merges init_def)
  have k1': "nat (num_merges ?T1) = Suc 0" by (simp add: k1)
  have m2: "merges (train ascii_lib ?T1 ?c) = [([97], [97]), ([97], [97])]"
    unfolding train_merges [of ascii_lib ?T1] aa_vocab k1' m1 aa_step by simp
  have u: "ustr ''a'' = [97]" by (simp add: ustr_def)
  show ?thesis unfolding m1 m2 k u by simp
qed

lemma ba_vocab:
  "get_bpe_vocab_from_corpus ascii_lib [ustr ''ba ba''] = [([[98], [97], [60, 47, 119, 62]], 2)]"
  by (simp add: get_bpe_vocab_from_corpus_def text_eval train_eval)

lemma ba_stats:
  "get_pair_stats [([[98::nat], [97], [60, 47, 119, 62]], 2)] =
     [(([98], [97]), 2), (([97], [60, 47, 119, 62]), 2)]"
  by (simp add: train_eval)

lemma ba_step:
  "train_loop (Suc 0) ([([[98::nat], [97], [60, 47, 119, 62]], 2)], ms) =
     ([([[98, 97], [60, 47, 119, 62]], 2)], ms @ [([98], [97])])"
  by (simp add: ba_stats) (simp add: train_eval)

lemma train_loop_step:
  "max_key (get_pair_stats v) = Some p \<Longrightarrow>
     train_loop (Suc n) (v, ms) =
       (if dict_val (get_pair_stats v) p < 2 then (v, ms)
        else train_loop n (merge_vocab p v, ms @ [p]))"
  by simp

lemma train_from_same_start:
  assumes "num_merges s1 = num_merges s2" and "merges s1 = merges s2"
  shows "merges (train_from sp tok s1 v) = merges (train_from sp tok s2 v)"
    and "pair2rank (train_from sp tok s1 v) = pair2rank (train_from sp tok s2 v)"
    and "token_to_id (train_from sp tok s1 v) = token_to_id (train_from sp tok s2 v)"
    and "id_to_token (train_from sp tok s1 v) = id_to_token (train_from sp tok s2 v)"
  using assms by (simp_all add: train_from_def Let_def split: prod.splits)

text \<open>
  C1 (as amended). In each round \<open>train\<close> takes \<open>max(pair_counts, key=pair_counts.get)\<close>:
  the first pair, in the insertion order of \<open>pair_counts\<close>, among those of maximal
  frequency; every pair inserted before it is strictly less frequent. The round appends
  that pair to the merges unless it occurs less than twice. Training is a function of
  the vocabulary of the corpus, the budget and the merges the instance starts with: two
  instances that agree on budget and merges end with the same merges, ranks and maps.
\<close>

theorem train_selects_first_maximal_pair:
  assumes "max_key (get_pair_stats v) = Some p"
  shows "p \<in> set (map fst (get_pair_stats v)) \<and>
         (\<forall>q \<in> set (map fst (get_pair_stats v)).
            dict_val (get_pair_stats v) q \<le> dict_val (get_pair_stats v) p) \<and>
         (\<forall>q \<in> set (takeWhile (\<lambda>k. k \<noteq> p) (map fst (get_pair_stats v))).
            dict_val (get_pair_stats v) q < dict_val (get_pair_stats v) p) \<and>
         train_loop (Suc n) (v, ms) =
           (if dict_val (get_pair_stats v) p < 2 then (v, ms)
            else train_loop n (merge_vocab p v, ms @ [p])) \<and>
         (num_merges s1 = num_merges s2 \<and> merges s1 = merges s2 \<longrightarrow>
            merges (train_from sp tok s1 v) = merges (train_from sp tok s2 v) \<and>
            pair2rank (train_from sp tok s1 v) = pair2rank (train_from sp tok s2 v) \<and>
            token_to_id (train_from sp tok s1 v) = token_to_id (train_from sp tok s2 v) \<and>
            id_to_token (train_from sp tok s1 v) = id_to_token (train_from sp tok s2 v))"
proof -
  note fm = max_key_first_max [OF assms]
  note st = train_loop_step [OF assms, of n ms]
  have det: "num_merges s1 = num_merges s2 \<and> merges s1 = merges s2 \<longrightarrow>
            merges (train_from sp tok s1 v) = merges (train_from sp tok s2 v) \<and>
            pair2rank (train_from sp tok s1 v) = pair2rank (train_from sp tok s2 v) \<and>
            token_to_id (train_from sp tok s1 v) = token_to_id (train_from sp tok s2 v) \<and>
            id_to_token (train_from sp tok s1 v) = id_to_token (train_from sp tok s2 v)"
    using train_from_same_start [of s1 s2 sp tok v] by blast
  from fm(1) fm(2) fm(3) st det show ?thesis by (intro conjI)
qed

theorem train_selects_first_maximal_pair_witness:
  "max_key (get_pair_stats [([ustr ''b'', ustr ''a'', eow], 2)]) = Some (ustr ''b'', ustr ''a'') \<and>
   map fst (get_pair_stats [([ustr ''b'', ustr ''a'', eow], 2)])
     = [(ustr ''b'', ustr ''a''), (ustr ''a'', eow)] \<and>
   dict_val (get_pair_stats [([ustr ''b'', ustr ''a'', eow], 2)]) (ustr ''a'', eow)
     \<le> dict_val (get_pair_stats [([ustr ''b'', ustr ''a'', eow], 2)]) (ustr ''b'', ustr ''a'') \<and>
   train_loop (Suc 0) ([([ustr ''b'', ustr ''a'', eow], 2)], [])
     = ([([ustr ''ba'', eow], 2)], [(ustr ''b'', ustr ''a'')]) \<and>
   merges (train_from SPECIAL_TOKENS (\<lambda>s. s) (init 1) [([ustr ''b'', ustr ''a'', eow], 2)])
     = merges (train_from SPECIAL_TOKENS (\<lambda>s. s) ((init 1)\<lparr>token_to_id := [(eow, 7)]\<rparr>)
                 [([ustr ''b'', ustr ''a'', eow], 2)])"
proof -
  let ?V = "[([ustr ''b'', ustr ''a'', eow], 2 :: int)]"
  let ?s1 = "init 1 :: (ustr, ustr) tokenizer"
  let ?s2 = "(init 1 :: (ustr, ustr) tokenizer)\<lparr>token_to_id := [(eow, 7)]\<rparr>"
  have u: "ustr ''b'' = [98]" "ustr ''a'' = [97]" "ustr ''ba'' = [98, 97]" "eow = [60, 47, 119, 62]"
    by (simp_all add: ustr_def eow_def)
  have st: "get_pair_stats ?V = [((ustr ''b'', ustr ''a''), 2), ((ustr ''a'', eow), 2)]"
    unfolding u by (rule ba_stats)
  have h: "max_key (get_pair_stats ?V) = Some (ustr ''b'', ustr ''a'')"
    unfolding st by (simp add: dict_val_def)
  have i: "num_merges ?s1 = num_merges ?s2 \<and> merges ?s1 = merges ?s2"
    by simp
  note t = train_selects_first_maximal_pair [OF h, of 0 "[]" ?s1 ?s2 SPECIAL_TOKENS "\<lambda>s. s"]
  have k: "(ustr ''a'', eow) \<in> set (map fst (get_pair_stats ?V))"
    unfolding st by simp
  from t have "\<forall>q \<in> set (map fst (get_pair_stats ?V)).
      dict_val (get_pair_stats ?V) q \<le> dict_val (get_pair_stats ?V) (ustr ''b'', ustr ''a'')"
    by (rule conjunct2 [THEN conjunct1])
  from this k have c3: "dict_val (get_pair_stats ?V) (ustr ''a'', eow)
      \<le> dict_val (get_pair_stats ?V) (ustr ''b'', ustr ''a'')" by (rule bspec)
  from t i have c5: "merges (train_from SPECIAL_TOKENS (\<lambda>s. s) ?s1 ?V)
      = merges (train_from SPECIAL_TOKENS (\<lambda>s. s) ?s2 ?V)"
    by blast
  have c4: "train_loop (Suc 0) (?V, []) = ([([ustr ''ba'', eow], 2)], [(ustr ''b'', ustr ''a'')])"
    unfolding u ba_step by simp
  have c2: "map fst (get_pair_stats ?V) = [(ustr ''b'', ustr ''a''), (ustr ''a'', eow)]"
    unfolding st by simp
  from h c2 c3 c4 c5 show ?thesis by (intro conjI)
qed

text \<open>
  C1 as stated fails: on the corpus \<open>["ba ba"]\<close> the pairs \<open>(b, a)\<close> and \<open>(a, </w>)\<close> both
  occur twice. The specification's rule takes \<open>(a, </w>)\<close>, the lexicographically
  smaller one; the source takes \<open>(b, a)\<close>, which was inserted first, and records it as
  the merge.
\<close>

theorem train_tie_break_is_insertion_order:
  "get_pair_stats (get_bpe_vocab_from_corpus ascii_lib [ustr ''ba ba''])
     = [((ustr ''b'', ustr ''a''), 2), ((ustr ''a'', eow), 2)] \<and>
   spec_max_key (get_pair_stats (get_bpe_vocab_from_corpus ascii_lib [ustr ''ba ba'']))
     = Some (ustr ''a'', eow) \<and>
   max_key (get_pair_stats (get_bpe_vocab_from_corpus ascii_lib [ustr ''ba ba'']))
     = Some (ustr ''b'', ustr ''a'') \<and>
   merges (train ascii_lib (init 1) [ustr ''ba ba'']) = [(ustr ''b'', ustr ''a'')]"
proof -
  have u: "ustr ''b'' = [98]" "ustr ''a'' = [97]" "eow = [60, 47, 119, 62]"
    by (simp_all add: ustr_def eow_def)
  have k0: "nat (num_merges (init 1 :: (ustr, ustr) tokenizer)) = Suc 0"
    and e0: "merges (init 1 :: (ustr, ustr) tokenizer) = []"
    by (simp_all add: init_def)
  have m: "merges (train ascii_lib (init 1) [ustr ''ba ba'']) = [([98], [97])]"
    unfolding train_merges ba_vocab k0 e0 ba_step by simp
  have a: "max_key [(([98::nat], [97::nat]), 2), (([97], [60, 47, 119, 62]), 2)] = Some ([98], [97])"
    by (simp add: dict_val_def)
  have b: "spec_max_key [(([98], [97]), 2), (([97], [60, 47, 119, 62]), 2)]
             = Some ([97], [60, 47, 119, 62])"
    by (simp add: dict_val_def pair_lex_less_def)
  show ?thesis unfolding ba_vocab ba_stats u m a b by simp
qed

section \<open>Two trained tokenizers\<close>

text \<open>
  \<open>BPE_Tokenizer(num_merges=1)\<close> trained on \<open>["aa aa"]\<close>: the one merge is \<open>(a, a)\<close>, the
  symbols that survive are \<open></w>\<close> and \<open>aa\<close>.
\<close>

lemma aa_sorted:
  "sorted_symbols [([[97::nat, 97], [60, 47, 119, 62]], 2)] = [[60, 47, 119, 62], [97, 97]]"
  unfolding sorted_symbols_def sorted_list_of_set_sort_remdups by simp

lemma aa_maps:
  "build_maps (SPECIAL_TOKENS @ [[60, 47, 119, 62], [97, 97]]) =
     ([(ustr ''<pad>'', 0), (ustr ''<unk>'', 1), (ustr ''<bos>'', 2), (ustr ''<eos>'', 3),
       ([60, 47, 119, 62], 4), ([97, 97], 5)],
      [(0, ustr ''<pad>''), (1, ustr ''<unk>''), (2, ustr ''<bos>''), (3, ustr ''<eos>''),
       (4, [60, 47, 119, 62]), (5, [97, 97])])"
  by (simp add: build_maps_def SPECIAL_TOKENS_def ustr_def)

lemma aa_trained:
  "train ascii_lib (init 1) [ustr ''aa aa''] =
     \<lparr>num_merges = 1,
      token_to_id = [(ustr ''<pad>'', 0), (ustr ''<unk>'', 1), (ustr ''<bos>'', 2),
                     (ustr ''<eos>'', 3), (eow, 4), (ustr ''aa'', 5)],
      id_to_token = [(0, ustr ''<pad>''), (1, ustr ''<unk>''), (2, ustr ''<bos>''),
                     (3, ustr ''<eos>''), (4, eow), (5, ustr ''aa'')],
      bpe_vocab = [([ustr ''aa'', eow], 2)],
      merges = [(ustr ''a'', ustr ''a'')],
      pair2rank = [((ustr ''a'', ustr ''a''), 0)]\<rparr>"
proof -
  have k0: "nat (num_merges (init 1 :: (ustr, ustr) tokenizer)) = Suc 0"
    and e0: "merges (init 1 :: (ustr, ustr) tokenizer) = []"
    by (simp_all add: init_def)
  have u: "ustr ''aa'' = [97, 97]" "ustr ''a'' = [97]" "eow = [60, 47, 119, 62]"
    by (simp_all add: ustr_def eow_def)
  show ?thesis
    unfolding train_def train_from_def aa_vocab k0 e0 aa_step Let_def prod.case aa_sorted aa_maps u
    by (simp add: init_def build_pair2rank_def aa_maps)
qed

lemma aa_encode:
  "encode ascii_lib (train ascii_lib (init 1) [ustr ''aa aa'']) (ustr '' Aa  aa '') = Inr [2, 5, 4, 5, 4, 3]"
  unfolding aa_trained
  by (simp add: encode_def text_eval encode_word_def word_symbols_def segment_def bpe_loop.simps
      tokens_to_ids_def eow_def)

lemma aa_decode:
  "decode (train ascii_lib (init 1) [ustr ''aa aa'']) [2, 5, 4, 5, 4, 3] = Inr (ustr ''aa aa'')"
  unfolding aa_trained
  by (simp add: decode_def ids_to_tokens_def SPECIAL_TOKENS_def decode_step_def endswith_def
      ustr_def eow_def)

text \<open>
  \<open>ByteBPE_Tokenizer(num_merges=1)\<close> trained on one line, \<open>aa aa\<close> followed by a space and
  \<open>U+00E9\<close>, whose UTF-8 encoding is \<open>C3 A9\<close>: the one merge is \<open>(a, a)\<close>; the two bytes of
  \<open>U+00E9\<close> stay symbols of their own.
\<close>

lemma e_norm: "normalize ascii_lib (ustr ''aa aa '' @ [233]) = [97, 97, 32, 97, 97, 32, 233]"
  by (simp add: text_eval)

lemma e_utf8: "utf8_encode [97, 97, 32, 97, 97, 32, 233] = Inr (''aa aa '' @ [CHR 0xC3, CHR 0xA9])"
  by (simp add: utf8_encode_def utf8_encode_char_def char_of_def bit_0)

lemma e_vocab:
  "get_bpe_vocab_from_corpus_b ascii_lib [ustr ''aa aa '' @ [233]] [] =
     Inr [([''a'', ''a'', '' '', ''a'', ''a'', '' '', [CHR 0xC3], [CHR 0xA9]], 1)]"
  unfolding get_bpe_vocab_from_corpus_b.simps e_norm e_utf8
  by (simp add: byte_symbols_def dict_add_def)

lemma e_stats:
  "get_pair_stats [([''a'', ''a'', '' '', ''a'', ''a'', '' '', [CHR 0xC3], [CHR 0xA9]], 1)] =
     [((''a'', ''a''), 2), ((''a'', '' ''), 2), (('' '', ''a''), 1), (('' '', [CHR 0xC3]), 1),
      (([CHR 0xC3], [CHR 0xA9]), 1)]"
  by (simp add: train_eval)

lemma e_step:
  "train_loop (Suc 0) ([([''a'', ''a'', '' '', ''a'', ''a'', '' '', [CHR 0xC3], [CHR 0xA9]], 1)], ms) =
     ([([''aa'', '' '', ''aa'', '' '', [CHR 0xC3], [CHR 0xA9]], 1)], ms @ [(''a'', ''a'')])"
  by (simp add: e_stats) (simp add: train_eval)

lemma e_sorted:
  "sorted_symbols [([''aa'', '' '', ''aa'', '' '', [CHR 0xC3], [CHR 0xA9]], 1)] =
     ['' '', ''aa'', [CHR 0xA9], [CHR 0xC3]]"
  unfolding sorted_symbols_def sorted_list_of_set_sort_remdups
  by (simp add: less_eq_char_def less_char_def)

lemma e_maps:
  "build_maps (map TStr SPECIAL_TOKENS @ map TBytes ['' '', ''aa'', [CHR 0xA9], [CHR 0xC3]]) =
     ([(TStr (ustr ''<pad>''), 0), (TStr (ustr ''<unk>''), 1), (TStr (ustr ''<bos>''), 2),
       (TStr (ustr ''<eos>''), 3), (TBytes '' '', 4), (TBytes ''aa'', 5),
       (TBytes [CHR 0xA9], 6), (TBytes [CHR 0xC3], 7)],
      [(0, TStr (ustr ''<pad>'')), (1, TStr (ustr ''<unk>'')), (2, TStr (ustr ''<bos>'')),
       (3, TStr (ustr ''<eos>'')), (4, TBytes '' ''), (5, TBytes ''aa''),
       (6, TBytes [CHR 0xA9]), (7, TBytes [CHR 0xC3])])"
  by (simp add: build_maps_def SPECIAL_TOKENS_def ustr_def)

lemma e_trained:
  "train_b ascii_lib (init 1) [ustr ''aa aa '' @ [233]] =
     Inr \<lparr>num_merges = 1,
          token_to_id = [(TStr (ustr ''<pad>''), 0), (TStr (ustr ''<unk>''), 1),
                         (TStr (ustr ''<bos>''), 2), (TStr (ustr ''<eos>''), 3), (TBytes '' '', 4),
                         (TBytes ''aa'', 5), (TBytes [CHR 0xA9], 6), (TBytes [CHR 0xC3], 7)],
          id_to_token = [(0, TStr (ustr ''<pad>'')), (1, TStr (ustr ''<unk>'')),
                         (2, TStr (ustr ''<bos>'')), (3, TStr (ustr ''<eos>'')), (4, TBytes '' ''),
                         (5, TBytes ''aa''), (6, TBytes [CHR 0xA9]), (7, TBytes [CHR 0xC3])],
          bpe_vocab = [([''aa'', '' '', ''aa'', '' '', [CHR 0xC3], [CHR 0xA9]], 1)],
          merges = [(''a'', ''a'')],
          pair2rank = [((''a'', ''a''), 0)]\<rparr>"
proof -
  have k0: "nat (num_merges (init 1 :: (string, btoken) tokenizer)) = Suc 0"
    and e0: "merges (init 1 :: (string, btoken) tokenizer) = []"
    by (simp_all add: init_def)
  show ?thesis
    unfolding train_b_def e_vocab sum.case train_from_def k0 e0 e_step Let_def prod.case
      e_sorted e_maps
    by (simp add: init_def build_pair2rank_def)
qed

lemma e_norm2: "normalize ascii_lib (ustr ''AA '' @ [233]) = [97, 97, 32, 233]"
  by (simp add: text_eval)

lemma e_utf82: "utf8_encode [97, 97, 32, 233] = Inr (''aa '' @ [CHR 0xC3, CHR 0xA9])"
  by (simp add: utf8_encode_def utf8_encode_char_def char_of_def bit_0)

lemma e_encode:
  "\<exists>T. train_b ascii_lib (init 1) [ustr ''aa aa '' @ [233]] = Inr T \<and>
       encode_b ascii_lib T (ustr ''AA '' @ [233]) = Inr [2, 5, 4, 7, 6, 3]"
  unfolding e_trained encode_b_def e_norm2 e_utf82
  by (simp add: encode_bytes_def byte_symbols_def segment_def
      bpe_loop.simps tokens_to_ids_def ustr_def)

lemma e_decode:
  "\<exists>T. train_b ascii_lib (init 1) [ustr ''aa aa '' @ [233]] = Inr T \<and>
       decode_b T [2, 5, 4, 7, 6, 3] = Inr (ustr ''aa '' @ [233]) \<and>
       decode_b T [7] = Inr [65533] \<and>
       decode_b T [99, 7, 1, 6] = Inr [233]"
  unfolding e_trained
  by (simp add: decode_b_def ids_to_tokens_def SPECIAL_TOKENS_def utf8_decode_replace_def
      is_cont_def second_ok_def ustr_def)

section \<open>Properties of \<open>encode\<close> and \<open>decode\<close> after training\<close>

lemma SPECIAL_TOKENS_distinct: "distinct SPECIAL_TOKENS"
  by (simp add: SPECIAL_TOKENS_def ustr_def)

lemma SPECIAL_TOKENS_nth:
  "SPECIAL_TOKENS ! 0 = ustr ''<pad>''" "SPECIAL_TOKENS ! Suc 0 = ustr ''<unk>''"
  "SPECIAL_TOKENS ! 2 = ustr ''<bos>''" "SPECIAL_TOKENS ! 3 = ustr ''<eos>''"
  "length SPECIAL_TOKENS = 4"
  by (simp_all add: SPECIAL_TOKENS_def numeral_2_eq_2 numeral_3_eq_3)

lemma SPECIAL_TOKENS_mem:
  "ustr ''<pad>'' \<in> set SPECIAL_TOKENS" "ustr ''<unk>'' \<in> set SPECIAL_TOKENS"
  "ustr ''<bos>'' \<in> set SPECIAL_TOKENS" "ustr ''<eos>'' \<in> set SPECIAL_TOKENS"
  by (simp_all add: SPECIAL_TOKENS_def)

lemma sorted_symbols_props:
  "distinct (sorted_symbols v)" "sorted (sorted_symbols v)"
  "set (sorted_symbols v) = set (concat (map fst v))"
  by (simp_all add: sorted_symbols_def)

lemma train_from_special_id:
  assumes "t \<in> set specials"
  shows "\<exists>j. map_of (token_to_id (train_from specials tok self v0)) t = Some j"
proof -
  from assms have "t \<in> set (vocab_list_of specials tok (bpe_vocab (train_from specials tok self v0)))"
    by (simp add: vocab_list_of_def)
  from build_maps_t2i_in [OF this] show ?thesis by (auto simp: train_from_fields)
qed

lemma train_from_first_ids:
  assumes "distinct (vocab_list_of specials tok (bpe_vocab (train_from specials tok self v0)))"
    and "i < length specials"
  shows "map_of (token_to_id (train_from specials tok self v0)) (specials ! i) = Some (int i)"
proof -
  let ?vl = "vocab_list_of specials tok (bpe_vocab (train_from specials tok self v0))"
  from assms(2) have "i < length ?vl" and "?vl ! i = specials ! i"
    by (simp_all add: vocab_list_of_def nth_append)
  with build_maps_t2i_distinct [OF assms(1), of i] show ?thesis
    by (simp add: train_from_fields)
qed

lemma byte_vocab_list_distinct:
  "distinct (vocab_list_of (map TStr SPECIAL_TOKENS) TBytes v)"
  by (auto simp: vocab_list_of_def distinct_map SPECIAL_TOKENS_distinct sorted_symbols_props
      inj_on_def)

lemma py_strip_all_space: "list_all is_space s \<Longrightarrow> py_strip s = []"
  by (auto simp: py_strip_def list_all_iff dest: set_dropWhileD)

lemma normalize_all_space:
  "list_all is_space (str_lower U (nfkc U inp)) \<Longrightarrow> normalize U inp = []"
  by (simp add: normalize_def py_strip_all_space)

lemma segment_Nil: "segment tbl [] = []"
  by (simp add: segment_def bpe_loop.simps [of tbl "[]"])

lemma tokens_to_ids_bos_eos:
  assumes "map_of t2i unk = Some u" "map_of t2i bos = Some b" "map_of t2i eos = Some e"
  shows "tokens_to_ids t2i unk ([bos] @ toks @ [eos]) =
           Inr (b # map (\<lambda>tok. case map_of t2i tok of None \<Rightarrow> u | Some idx \<Rightarrow> idx) toks @ [e])"
  using assms by (simp add: tokens_to_ids_def)

lemma encode_trained:
  assumes "T = train U self corpus"
  shows "\<exists>u b e. map_of (token_to_id T) (ustr ''<unk>'') = Some u \<and>
           map_of (token_to_id T) (ustr ''<bos>'') = Some b \<and>
           map_of (token_to_id T) (ustr ''<eos>'') = Some e \<and>
           encode U T inp =
             Inr (b # map (\<lambda>tok. case map_of (token_to_id T) tok of None \<Rightarrow> u | Some idx \<Rightarrow> idx)
                        (concat (map (encode_word T)
                           (filter (\<lambda>w. w \<noteq> []) (py_split (normalize U inp))))) @ [e])"
proof -
  have T: "T = train_from SPECIAL_TOKENS (\<lambda>s. s) self (get_bpe_vocab_from_corpus U corpus)"
    using assms by (simp add: train_def)
  from train_from_special_id [OF SPECIAL_TOKENS_mem(2)]
  obtain u where u: "map_of (token_to_id T) (ustr ''<unk>'') = Some u" unfolding T by blast
  from train_from_special_id [OF SPECIAL_TOKENS_mem(3)]
  obtain b where b: "map_of (token_to_id T) (ustr ''<bos>'') = Some b" unfolding T by blast
  from train_from_special_id [OF SPECIAL_TOKENS_mem(4)]
  obtain e where e: "map_of (token_to_id T) (ustr ''<eos>'') = Some e" unfolding T by blast
  from u have ne: "token_to_id T \<noteq> []" by auto
  from ne have "encode U T inp =
      tokens_to_ids (token_to_id T) (ustr ''<unk>'')
        ([ustr ''<bos>''] @ concat (map (encode_word T)
            (filter (\<lambda>w. w \<noteq> []) (py_split (normalize U inp)))) @ [ustr ''<eos>''])"
    by (simp add: encode_def Let_def)
  with tokens_to_ids_bos_eos [OF u b e] u b e show ?thesis by simp
qed

lemma encode_b_trained:
  assumes "train_b U selfb corpusb = Inr Tb"
  shows "\<exists>u. map_of (token_to_id Tb) (TStr (ustr ''<unk>'')) = Some u \<and> u = 1 \<and>
           map_of (token_to_id Tb) (TStr (ustr ''<bos>'')) = Some 2 \<and>
           map_of (token_to_id Tb) (TStr (ustr ''<eos>'')) = Some 3 \<and>
           (\<forall>bs. utf8_encode (normalize U inp) = Inr bs \<longrightarrow>
              encode_b U Tb inp =
                Inr (2 # map (\<lambda>tok. case map_of (token_to_id Tb) tok of None \<Rightarrow> u | Some idx \<Rightarrow> idx)
                           (map TBytes (encode_bytes Tb bs)) @ [3])) \<and>
           (\<forall>err. utf8_encode (normalize U inp) = Inl err \<longrightarrow>
              encode_b U Tb inp = Inl UnicodeEncodeError)"
proof -
  from assms obtain v0 where
    T: "Tb = train_from (map TStr SPECIAL_TOKENS) TBytes selfb v0"
    by (auto simp: train_b_def split: sum.splits)
  have d: "distinct (vocab_list_of (map TStr SPECIAL_TOKENS) TBytes (bpe_vocab Tb))"
    by (rule byte_vocab_list_distinct)
  have u: "map_of (token_to_id Tb) (TStr (ustr ''<unk>'')) = Some 1"
    using train_from_first_ids [of "map TStr SPECIAL_TOKENS" TBytes selfb v0 "Suc 0"] d
    unfolding T [symmetric] by (simp add: SPECIAL_TOKENS_nth)
  have b: "map_of (token_to_id Tb) (TStr (ustr ''<bos>'')) = Some 2"
    using train_from_first_ids [of "map TStr SPECIAL_TOKENS" TBytes selfb v0 2] d
    unfolding T [symmetric] by (simp add: SPECIAL_TOKENS_nth)
  have e: "map_of (token_to_id Tb) (TStr (ustr ''<eos>'')) = Some 3"
    using train_from_first_ids [of "map TStr SPECIAL_TOKENS" TBytes selfb v0 3] d
    unfolding T [symmetric] by (simp add: SPECIAL_TOKENS_nth)
  from u have ne: "token_to_id Tb \<noteq> []" by auto
  have ok: "\<forall>bs. utf8_encode (normalize U inp) = Inr bs \<longrightarrow>
              encode_b U Tb inp =
                Inr (2 # map (\<lambda>tok. case map_of (token_to_id Tb) tok of None \<Rightarrow> 1 | Some idx \<Rightarrow> idx)
                           (map TBytes (encode_bytes Tb bs)) @ [3])"
    using ne tokens_to_ids_bos_eos [OF u b e] by (simp add: encode_b_def)
  have bad: "\<forall>err. utf8_encode (normalize U inp) = Inl err \<longrightarrow>
              encode_b U Tb inp = Inl UnicodeEncodeError"
    using ne by (auto simp: encode_b_def dest: utf8_encode_error)
  from u b e ok bad show ?thesis by simp
qed

end
